theory Spec2Isabelle
  imports Complex_Main "HOL-Library.Word"
begin

unbundle bit_operations_syntax

section \<open>Buffers, strings and the Node.js runtime\<close>

text \<open>
  A Node.js \<^verbatim>\<open>Buffer\<close> is a list of bytes. Reading an index out of range gives
  \<^verbatim>\<open>undefined\<close> (here \<open>None\<close>); writing an index out of range is ignored, which is
  what list update \<open>xs[i := v]\<close> does.

  The zlib binding and the largest buffer that \<^verbatim>\<open>Buffer.alloc\<close> accepts
  (\<^verbatim>\<open>buffer.constants.MAX_LENGTH\<close>) belong to the runtime, not to the repository: they
  are the fields of \<open>runtime\<close>. \<open>None\<close> from \<open>inflateSync\<close> or \<open>deflateSync\<close> is a
  thrown exception. Exhausted memory below \<open>kMaxLength\<close> is not modelled.
\<close>

type_synonym byte = "8 word"
type_synonym buffer = "byte list"

record runtime =
  inflateSync :: "buffer \<Rightarrow> buffer option"
  deflateSync :: "buffer \<Rightarrow> buffer option"
  kMaxLength :: nat

definition buf_index :: "buffer \<Rightarrow> nat \<Rightarrow> byte option" where
  "buf_index buf i = (if i < length buf then Some (buf ! i) else None)"

definition slice :: "'a list \<Rightarrow> nat \<Rightarrow> nat \<Rightarrow> 'a list" where
  "slice xs start end = take (end - start) (drop start xs)"

text \<open>\<^verbatim>\<open>Buffer.from(str, 'ascii')\<close> and \<^verbatim>\<open>buf.toString('ascii', start, end)\<close>; decoding
  as ASCII clears the highest bit of every byte.\<close>

definition from_ascii :: "string \<Rightarrow> buffer" where
  "from_ascii s = map of_char s"

definition toString_ascii :: "buffer \<Rightarrow> nat \<Rightarrow> nat \<Rightarrow> string" where
  "toString_ascii buf start end = map (\<lambda>b. char_of (unat (b AND 0x7f))) (slice buf start end)"

text \<open>\<^verbatim>\<open>readUInt32BE\<close> throws a RangeError when the four bytes are not all inside the
  buffer; \<^verbatim>\<open>writeUInt32BE\<close> throws when the value does not fit 32 bits.\<close>

definition readUInt32BE :: "buffer \<Rightarrow> nat \<Rightarrow> nat option" where
  "readUInt32BE buf offset =
     (if offset + 4 \<le> length buf
      then Some (unat (buf ! offset) * 2 ^ 24 + unat (buf ! (offset + 1)) * 2 ^ 16
                 + unat (buf ! (offset + 2)) * 2 ^ 8 + unat (buf ! (offset + 3)))
      else None)"

definition writeUInt32BE :: "nat \<Rightarrow> buffer option" where
  "writeUInt32BE v =
     (if v < 2 ^ 32
      then Some [of_nat (v div 2 ^ 24), of_nat (v div 2 ^ 16), of_nat (v div 2 ^ 8), of_nat v]
      else None)"

section \<open>JavaScript numbers\<close>

text \<open>
  A finite JavaScript number is an IEEE 754 binary64 value, here the rational it denotes.
  Every arithmetic operation returns the exact result rounded to 53 significant bits, to
  nearest, ties to even (\<open>fl\<close>). The exponent range is not modelled: the magnitudes this
  program computes (byte values, pixel counts, their products and quotients) stay far
  inside it. \<^verbatim>\<open>NaN\<close>, which arises from reading \<^verbatim>\<open>undefined\<close>, is \<open>None\<close>.
\<close>

text \<open>The number of binary digits of a positive integer, and from it the exponent \<open>e\<close>
  with \<open>2 ^ e \<le> x < 2 ^ (e + 1)\<close> of a positive rational.\<close>

function bit_length :: "int \<Rightarrow> int" where
  "bit_length n = (if n \<le> 0 then 0 else 1 + bit_length (n div 2))"
  by pat_completeness auto
termination
  by (relation "measure nat") auto

declare bit_length.simps [simp del]

definition ilog2 :: "rat \<Rightarrow> int" where
  "ilog2 x = (if 1 \<le> x then bit_length \<lfloor>x\<rfloor> - 1 else - bit_length (\<lceil>1 / x\<rceil> - 1))"

definition rne :: "rat \<Rightarrow> int" where
  "rne x = (let f = \<lfloor>x\<rfloor>; d = x - of_int f in
     if d < 1 / 2 then f else if 1 / 2 < d then f + 1 else if even f then f else f + 1)"

definition fl :: "rat \<Rightarrow> rat" where
  "fl x = (if x = 0 then 0 else
     let u = 2 powi (ilog2 \<bar>x\<bar> - 52) in sgn x * of_int (rne (\<bar>x\<bar> / u)) * u)"

definition js_add :: "rat \<Rightarrow> rat \<Rightarrow> rat" where "js_add a b = fl (a + b)"
definition js_sub :: "rat \<Rightarrow> rat \<Rightarrow> rat" where "js_sub a b = fl (a - b)"
definition js_mul :: "rat \<Rightarrow> rat \<Rightarrow> rat" where "js_mul a b = fl (a * b)"
definition js_div :: "rat \<Rightarrow> rat \<Rightarrow> rat" where "js_div a b = fl (a / b)"

text \<open>A decimal literal of the source denotes the nearest double.\<close>

definition js_lit :: "rat \<Rightarrow> rat" where "js_lit q = fl q"

definition Math_floor :: "rat \<Rightarrow> int" where "Math_floor x = \<lfloor>x\<rfloor>"

definition Math_round :: "rat \<Rightarrow> int" where "Math_round x = \<lfloor>x + 1 / 2\<rfloor>"

definition byte_num :: "byte \<Rightarrow> rat" where "byte_num b = of_nat (unat b)"

text \<open>Storing a number into a buffer element: \<^verbatim>\<open>NaN\<close> becomes 0, an integer is taken
  modulo 256.\<close>

definition to_uint8 :: "int option \<Rightarrow> byte" where
  "to_uint8 v = (case v of None \<Rightarrow> 0 | Some n \<Rightarrow> word_of_int n)"

section \<open>Thresholds\<close>

definition ALPHA_THRESHOLD :: byte where "ALPHA_THRESHOLD = 128"
definition TRANSPARENT_RATIO_THRESHOLD :: rat where "TRANSPARENT_RATIO_THRESHOLD = js_lit (5 / 10)"
definition LUMINANCE_THRESHOLD :: rat where "LUMINANCE_THRESHOLD = 128"

section \<open>CRC-32 and chunk writing\<close>

definition crc_step :: "32 word \<Rightarrow> 32 word" where
  "crc_step c = (if c AND 1 \<noteq> 0 then 0xedb88320 XOR drop_bit 1 c else drop_bit 1 c)"

definition CRC_TABLE :: "nat \<Rightarrow> 32 word" where
  "CRC_TABLE i = (crc_step ^^ 8) (of_nat i)"

definition crc32 :: "buffer \<Rightarrow> 32 word" where
  "crc32 buf =
     foldl (\<lambda>c b. CRC_TABLE (unat ((c XOR ucast b) AND 0xff)) XOR drop_bit 8 c) 0xffffffff buf
       XOR 0xffffffff"

definition makeChunk :: "string \<Rightarrow> buffer \<Rightarrow> buffer option" where
  "makeChunk typeStr dataBuf =
     (let typeBuf = from_ascii typeStr in
      case writeUInt32BE (length dataBuf) of
        None \<Rightarrow> None
      | Some lenBuf \<Rightarrow>
          let crcInput = typeBuf @ dataBuf; crc = crc32 crcInput in
          (case writeUInt32BE (unat crc) of
             None \<Rightarrow> None
           | Some crcBuf \<Rightarrow> Some (lenBuf @ typeBuf @ dataBuf @ crcBuf)))"

section \<open>parsePNG\<close>

definition PNG_SIG :: buffer where
  "PNG_SIG = [137, 80, 78, 71, 13, 10, 26, 10]"

text \<open>How \<^verbatim>\<open>parsePNG\<close> ends without an image: an explicit \<^verbatim>\<open>return null\<close>, or an
  exception caught by its \<^verbatim>\<open>try\<close>/\<^verbatim>\<open>catch\<close>, which returns \<^verbatim>\<open>null\<close> as well.\<close>

datatype failure = ReturnedNull | Thrown

record dims =
  width :: nat
  height :: nat

text \<open>The header fields read as \<^verbatim>\<open>data[8]\<close> .. \<^verbatim>\<open>data[12]\<close> are \<^verbatim>\<open>undefined\<close> when
  the IHDR data is shorter.\<close>

record ihdr = dims +
  bitDepth :: "byte option"
  colorType :: "byte option"
  compression :: "byte option"
  filter_method :: "byte option"
  interlace :: "byte option"

record image = dims +
  data :: buffer

record reader =
  ihdr :: "ihdr option"
  idatParts :: "buffer list"
  plte :: "buffer option"
  trns :: "buffer option"
  ended :: bool

definition reader_init :: reader where
  "reader_init = \<lparr>ihdr = None, idatParts = [], plte = None, trns = None, ended = False\<rparr>"

definition make_ihdr :: "nat \<Rightarrow> nat \<Rightarrow> buffer \<Rightarrow> ihdr" where
  "make_ihdr w h dat =
     \<lparr>width = w, height = h, bitDepth = buf_index dat 8, colorType = buf_index dat 9,
      compression = buf_index dat 10, filter_method = buf_index dat 11,
      interlace = buf_index dat 12\<rparr>"

text \<open>The chunk loop. The trailing CRC of a chunk is read and never used.\<close>

function read_chunks :: "buffer \<Rightarrow> nat \<Rightarrow> reader \<Rightarrow> failure + reader" where
  "read_chunks buf offset st =
     (if offset < length buf then
        if offset + 8 > length buf then Inr st
        else
          (case readUInt32BE buf offset of
             None \<Rightarrow> Inl Thrown
           | Some len \<Rightarrow>
               let type = toString_ascii buf (offset + 4) (offset + 8);
                   dataStart = offset + 8;
                   dataEnd = dataStart + len
               in if dataEnd + 4 > length buf then Inr st
                  else
                    let dat = slice buf dataStart dataEnd;
                        crc = readUInt32BE buf dataEnd;
                        offset' = dataEnd + 4
                    in if type = ''IHDR'' then
                         (case readUInt32BE dat 0 of
                            None \<Rightarrow> Inl Thrown
                          | Some w \<Rightarrow>
                              (case readUInt32BE dat 4 of
                                 None \<Rightarrow> Inl Thrown
                               | Some h \<Rightarrow>
                                   read_chunks buf offset' (st\<lparr>ihdr := Some (make_ihdr w h dat)\<rparr>)))
                       else if type = ''PLTE'' then read_chunks buf offset' (st\<lparr>plte := Some dat\<rparr>)
                       else if type = ''tRNS'' then read_chunks buf offset' (st\<lparr>trns := Some dat\<rparr>)
                       else if type = ''IDAT'' then
                         read_chunks buf offset' (st\<lparr>idatParts := idatParts st @ [dat]\<rparr>)
                       else if type = ''IEND'' then Inr (st\<lparr>ended := True\<rparr>)
                       else read_chunks buf offset' st)
      else Inr st)"
  by pat_completeness auto
termination
  by (relation "measure (\<lambda>(buf, offset, st). length buf - offset)") auto

declare read_chunks.simps [simp del]

text \<open>Scanline defiltering, in place on \<^verbatim>\<open>curLine\<close>, byte after byte.\<close>

definition paeth :: "int \<Rightarrow> int \<Rightarrow> int \<Rightarrow> int" where
  "paeth a b c =
     (let p = a + b - c; pa = \<bar>p - a\<bar>; pb = \<bar>p - b\<bar>; pc = \<bar>p - c\<bar>
      in if pa \<le> pb \<and> pa \<le> pc then a else if pb \<le> pc then b else c)"

text \<open>\<^verbatim>\<open>(i - bytesPerPixel) >= 0 ? line[i - bytesPerPixel] : 0\<close>\<close>

definition left_of :: "nat \<Rightarrow> buffer \<Rightarrow> nat \<Rightarrow> byte" where
  "left_of bytesPerPixel line i = (if bytesPerPixel \<le> i then line ! (i - bytesPerPixel) else 0)"

definition sub_step :: "nat \<Rightarrow> buffer \<Rightarrow> nat \<Rightarrow> buffer" where
  "sub_step bytesPerPixel curLine i =
     (let a = left_of bytesPerPixel curLine i in curLine[i := curLine ! i + a])"

definition up_step :: "buffer \<Rightarrow> buffer \<Rightarrow> nat \<Rightarrow> buffer" where
  "up_step prevLine curLine i =
     (let b = prevLine ! i in curLine[i := curLine ! i + b])"

definition average_step :: "nat \<Rightarrow> buffer \<Rightarrow> buffer \<Rightarrow> nat \<Rightarrow> buffer" where
  "average_step bytesPerPixel prevLine curLine i =
     (let a = left_of bytesPerPixel curLine i; b = prevLine ! i
      in curLine[i := of_nat (unat (curLine ! i) + (unat a + unat b) div 2)])"

definition paeth_step :: "nat \<Rightarrow> buffer \<Rightarrow> buffer \<Rightarrow> nat \<Rightarrow> buffer" where
  "paeth_step bytesPerPixel prevLine curLine i =
     (let a = left_of bytesPerPixel curLine i; b = prevLine ! i;
          c = left_of bytesPerPixel prevLine i
      in curLine[i := word_of_int (uint (curLine ! i) + paeth (uint a) (uint b) (uint c))])"

definition unfilter_paeth :: "nat \<Rightarrow> nat \<Rightarrow> buffer \<Rightarrow> buffer \<Rightarrow> buffer" where
  "unfilter_paeth bytesPerPixel expectedRowBytes prevLine curLine =
     foldl (paeth_step bytesPerPixel prevLine) curLine [0..<expectedRowBytes]"

definition apply_filter :: "byte \<Rightarrow> nat \<Rightarrow> nat \<Rightarrow> buffer \<Rightarrow> buffer \<Rightarrow> buffer option" where
  "apply_filter filterType bytesPerPixel expectedRowBytes prevLine curLine =
     (if filterType = 0 then Some curLine
      else if filterType = 1 then
        Some (foldl (sub_step bytesPerPixel) curLine [0..<expectedRowBytes])
      else if filterType = 2 then
        Some (foldl (up_step prevLine) curLine [0..<expectedRowBytes])
      else if filterType = 3 then
        Some (foldl (average_step bytesPerPixel prevLine) curLine [0..<expectedRowBytes])
      else if filterType = 4 then
        Some (unfilter_paeth bytesPerPixel expectedRowBytes prevLine curLine)
      else None)"

text \<open>Expanding one defiltered row into the RGBA output, pixel after pixel.\<close>

fun convert_row ::
  "ihdr \<Rightarrow> reader \<Rightarrow> nat \<Rightarrow> nat \<Rightarrow> buffer \<Rightarrow> nat list \<Rightarrow> buffer \<Rightarrow> failure + buffer" where
  "convert_row hdr st bytesPerPixel y curLine [] out = Inr out"
| "convert_row hdr st bytesPerPixel y curLine (x # xs) out =
     (let inIdx = x * bytesPerPixel; outIdx = (y * width hdr + x) * 4 in
      if colorType hdr = Some 6 then
        convert_row hdr st bytesPerPixel y curLine xs
          (out[outIdx := curLine ! inIdx, outIdx + 1 := curLine ! (inIdx + 1),
               outIdx + 2 := curLine ! (inIdx + 2), outIdx + 3 := curLine ! (inIdx + 3)])
      else if colorType hdr = Some 2 then
        convert_row hdr st bytesPerPixel y curLine xs
          (out[outIdx := curLine ! inIdx, outIdx + 1 := curLine ! (inIdx + 1),
               outIdx + 2 := curLine ! (inIdx + 2), outIdx + 3 := 255])
      else if colorType hdr = Some 0 then
        (let g = curLine ! inIdx in
         convert_row hdr st bytesPerPixel y curLine xs
           (out[outIdx := g, outIdx + 1 := g, outIdx + 2 := g, outIdx + 3 := 255]))
      else if colorType hdr = Some 3 then
        (let idx = unat (curLine ! inIdx) in
         case plte st of
           None \<Rightarrow> Inl ReturnedNull
         | Some pal \<Rightarrow>
             let palIdx = idx * 3 in
             if palIdx + 2 \<ge> length pal then Inl ReturnedNull
             else
               let alpha = (case trns st of
                              None \<Rightarrow> 255
                            | Some t \<Rightarrow> if idx < length t then t ! idx else 255)
               in convert_row hdr st bytesPerPixel y curLine xs
                    (out[outIdx := pal ! palIdx, outIdx + 1 := pal ! (palIdx + 1),
                         outIdx + 2 := pal ! (palIdx + 2), outIdx + 3 := alpha]))
      else convert_row hdr st bytesPerPixel y curLine xs out)"

text \<open>The scanline loop; \<open>pos\<close> is the position in the inflated stream.\<close>

fun decode_rows ::
  "ihdr \<Rightarrow> reader \<Rightarrow> nat \<Rightarrow> buffer \<Rightarrow> nat list \<Rightarrow> nat \<Rightarrow> buffer \<Rightarrow> buffer \<Rightarrow> failure + buffer" where
  "decode_rows hdr st bytesPerPixel raw [] pos prevLine out = Inr out"
| "decode_rows hdr st bytesPerPixel raw (y # ys) pos prevLine out =
     (let expectedRowBytes = width hdr * bytesPerPixel in
      if pos \<ge> length raw then Inl ReturnedNull
      else
        let filterType = raw ! pos; pos1 = pos + 1 in
        if pos1 + expectedRowBytes > length raw then Inl ReturnedNull
        else
          let curLine = slice raw pos1 (pos1 + expectedRowBytes) in
          (case apply_filter filterType bytesPerPixel expectedRowBytes prevLine curLine of
             None \<Rightarrow> Inl ReturnedNull
           | Some cur \<Rightarrow>
               (case convert_row hdr st bytesPerPixel y cur [0..<width hdr] out of
                  Inl e \<Rightarrow> Inl e
                | Inr out' \<Rightarrow>
                    decode_rows hdr st bytesPerPixel raw ys (pos1 + expectedRowBytes) cur out')))"

definition channels_of :: "byte option \<Rightarrow> nat option" where
  "channels_of ct =
     (if ct = Some 6 then Some 4 else if ct = Some 2 then Some 3
      else if ct = Some 0 then Some 1 else if ct = Some 3 then Some 1 else None)"

definition parsePNG_body :: "runtime \<Rightarrow> buffer \<Rightarrow> failure + image" where
  "parsePNG_body rt buf =
     (if length buf < 8 \<or> slice buf 0 8 \<noteq> PNG_SIG then Inl ReturnedNull
      else
        case read_chunks buf 8 reader_init of
          Inl e \<Rightarrow> Inl e
        | Inr st \<Rightarrow>
            (case ihdr st of
               None \<Rightarrow> Inl ReturnedNull
             | Some hdr \<Rightarrow>
                 if \<not> ended st then Inl ReturnedNull
                 else if compression hdr \<noteq> Some 0 \<or> filter_method hdr \<noteq> Some 0
                   then Inl ReturnedNull
                 else if bitDepth hdr \<noteq> Some 8 then Inl ReturnedNull
                 else if interlace hdr \<noteq> Some 0 then Inl ReturnedNull
                 else
                   let compressed = concat (idatParts st) in
                   (case inflateSync rt compressed of
                      None \<Rightarrow> Inl Thrown
                    | Some raw \<Rightarrow>
                        (case channels_of (colorType hdr) of
                           None \<Rightarrow> Inl ReturnedNull
                         | Some channels \<Rightarrow>
                             let bytesPerPixel = channels;
                                 expectedRowBytes = width hdr * bytesPerPixel
                             in if width hdr * height hdr * 4 > kMaxLength rt then Inl Thrown
                                else if expectedRowBytes > kMaxLength rt then Inl Thrown
                                else
                                  let out = replicate (width hdr * height hdr * 4) 0;
                                      prevLine = replicate expectedRowBytes 0
                                  in (case decode_rows hdr st bytesPerPixel raw
                                             [0..<height hdr] 0 prevLine out of
                                        Inl e \<Rightarrow> Inl e
                                      | Inr out' \<Rightarrow>
                                          Inr \<lparr>width = width hdr, height = height hdr,
                                               data = out'\<rparr>)))))"

definition parsePNG :: "runtime \<Rightarrow> buffer \<Rightarrow> image option" where
  "parsePNG rt buf = (case parsePNG_body rt buf of Inl e \<Rightarrow> None | Inr img \<Rightarrow> Some img)"

section \<open>encodePNG\<close>

text \<open>\<^verbatim>\<open>source.copy(target, targetStart, sourceStart, sourceEnd)\<close>: throws when
  \<open>sourceStart\<close> lies beyond the source, copies what fits otherwise.\<close>

definition buffer_copy :: "buffer \<Rightarrow> buffer \<Rightarrow> nat \<Rightarrow> nat \<Rightarrow> nat \<Rightarrow> buffer option" where
  "buffer_copy source target targetStart sourceStart sourceEnd =
     (if sourceStart > length source then None
      else if targetStart \<ge> length target \<or> sourceStart \<ge> sourceEnd then Some target
      else
        let nb = min (min (sourceEnd - sourceStart) (length target - targetStart))
                     (length source - sourceStart)
        in Some (take targetStart target @ slice source sourceStart (sourceStart + nb)
                 @ drop (targetStart + nb) target))"

fun encode_rows :: "buffer \<Rightarrow> nat \<Rightarrow> nat \<Rightarrow> nat list \<Rightarrow> buffer \<Rightarrow> buffer option" where
  "encode_rows rgbaBuf wd rowSize [] raw = Some raw"
| "encode_rows rgbaBuf wd rowSize (y # ys) raw =
     (let dstRow = y * rowSize; srcRow = y * wd * 4 in
      case buffer_copy rgbaBuf (raw[dstRow := 0]) (dstRow + 1) srcRow (srcRow + wd * 4) of
        None \<Rightarrow> None
      | Some raw' \<Rightarrow> encode_rows rgbaBuf wd rowSize ys raw')"

definition encodePNG :: "runtime \<Rightarrow> buffer \<Rightarrow> nat \<Rightarrow> nat \<Rightarrow> buffer option" where
  "encodePNG rt rgbaBuf wd ht =
     (let rowSize = 1 + wd * 4 in
      if rowSize * ht > kMaxLength rt then None
      else
        case encode_rows rgbaBuf wd rowSize [0..<ht] (replicate (rowSize * ht) 0) of
          None \<Rightarrow> None
        | Some raw \<Rightarrow>
            (case deflateSync rt raw of
               None \<Rightarrow> None
             | Some compressed \<Rightarrow>
                 (case writeUInt32BE wd of
                    None \<Rightarrow> None
                  | Some wbuf \<Rightarrow>
                      (case writeUInt32BE ht of
                         None \<Rightarrow> None
                       | Some hbuf \<Rightarrow>
                           let hdr = wbuf @ hbuf @ [8, 6, 0, 0, 0] in
                           (case makeChunk ''IHDR'' hdr of
                              None \<Rightarrow> None
                            | Some ihdrChunk \<Rightarrow>
                                (case makeChunk ''IDAT'' compressed of
                                   None \<Rightarrow> None
                                 | Some idatChunk \<Rightarrow>
                                     (case makeChunk ''IEND'' [] of
                                        None \<Rightarrow> None
                                      | Some iendChunk \<Rightarrow>
                                          Some (PNG_SIG @ ihdrChunk @ idatChunk
                                                @ iendChunk))))))))"

section \<open>analyzeRGBA\<close>

record analysis =
  transparentRatio :: rat
  avgLuma :: "rat option"

record counters =
  transparentCount :: nat
  lumSum :: "rat option"
  lumCount :: nat

text \<open>\<^verbatim>\<open>0.2126 * r + 0.7152 * g + 0.0722 * b\<close>; \<^verbatim>\<open>NaN\<close> when a byte is \<^verbatim>\<open>undefined\<close>.\<close>

definition lum_of :: "byte \<Rightarrow> byte \<Rightarrow> byte \<Rightarrow> rat" where
  "lum_of r g b =
     js_add (js_add (js_mul (js_lit (2126 / 10000)) (byte_num r))
                    (js_mul (js_lit (7152 / 10000)) (byte_num g)))
            (js_mul (js_lit (722 / 10000)) (byte_num b))"

definition luminance :: "byte option \<Rightarrow> byte option \<Rightarrow> byte option \<Rightarrow> rat option" where
  "luminance r g b =
     (case r of None \<Rightarrow> None | Some r' \<Rightarrow>
        (case g of None \<Rightarrow> None | Some g' \<Rightarrow>
           (case b of None \<Rightarrow> None | Some b' \<Rightarrow> Some (lum_of r' g' b'))))"

definition nan_add :: "rat option \<Rightarrow> rat option \<Rightarrow> rat option" where
  "nan_add x y = (case x of None \<Rightarrow> None | Some x' \<Rightarrow>
                    (case y of None \<Rightarrow> None | Some y' \<Rightarrow> Some (js_add x' y')))"

text \<open>\<^verbatim>\<open>a < ALPHA_THRESHOLD\<close> is false when \<open>a\<close> is \<^verbatim>\<open>undefined\<close>.\<close>

definition is_transparent :: "byte option \<Rightarrow> bool" where
  "is_transparent a = (case a of None \<Rightarrow> False | Some a' \<Rightarrow> a' < ALPHA_THRESHOLD)"

function analyze_loop :: "buffer \<Rightarrow> nat \<Rightarrow> counters \<Rightarrow> counters" where
  "analyze_loop rgbaBuf i s =
     (if i < length rgbaBuf then
        let r = buf_index rgbaBuf i; g = buf_index rgbaBuf (i + 1);
            b = buf_index rgbaBuf (i + 2); a = buf_index rgbaBuf (i + 3)
        in if is_transparent a then
             analyze_loop rgbaBuf (i + 4) (s\<lparr>transparentCount := transparentCount s + 1\<rparr>)
           else
             analyze_loop rgbaBuf (i + 4)
               (s\<lparr>lumSum := nan_add (lumSum s) (luminance r g b), lumCount := lumCount s + 1\<rparr>)
      else s)"
  by pat_completeness auto
termination
  by (relation "measure (\<lambda>(rgbaBuf, i, s). length rgbaBuf - i)") auto

declare analyze_loop.simps [simp del]

definition analyzeRGBA :: "buffer \<Rightarrow> analysis" where
  "analyzeRGBA rgbaBuf =
     (let totalPixels = js_div (of_nat (length rgbaBuf)) 4;
          s = analyze_loop rgbaBuf 0 \<lparr>transparentCount = 0, lumSum = Some 0, lumCount = 0\<rparr>;
          ratio = js_div (of_nat (transparentCount s)) (if totalPixels = 0 then 1 else totalPixels);
          luma = (if lumCount s \<noteq> 0
                  then (case lumSum s of
                          None \<Rightarrow> None
                        | Some t \<Rightarrow> Some (js_div t (of_nat (lumCount s))))
                  else Some 255)
      in \<lparr>transparentRatio = ratio, avgLuma = luma\<rparr>)"

section \<open>flattenRGBA\<close>

text \<open>\<^verbatim>\<open>parseInt(s, 16)\<close> on a string of 8-bit code units: leading white space, a sign, a
  \<^verbatim>\<open>0x\<close> prefix, then the longest run of hexadecimal digits; \<^verbatim>\<open>NaN\<close> when that run is
  empty.\<close>

definition hex_digit :: "char \<Rightarrow> nat option" where
  "hex_digit c =
     (let n = (of_char c :: nat) in
      if 48 \<le> n \<and> n \<le> 57 then Some (n - 48)
      else if 97 \<le> n \<and> n \<le> 102 then Some (n - 87)
      else if 65 \<le> n \<and> n \<le> 70 then Some (n - 55)
      else None)"

definition is_js_space :: "char \<Rightarrow> bool" where
  "is_js_space c = ((of_char c :: nat) \<in> {9, 10, 11, 12, 13, 32, 160})"

fun hex_digits :: "string \<Rightarrow> nat option \<Rightarrow> nat option" where
  "hex_digits [] acc = acc"
| "hex_digits (c # cs) acc =
     (case hex_digit c of
        None \<Rightarrow> acc
      | Some d \<Rightarrow> hex_digits cs (Some ((case acc of None \<Rightarrow> 0 | Some v \<Rightarrow> v) * 16 + d)))"

definition parseInt16 :: "string \<Rightarrow> int option" where
  "parseInt16 s =
     (let s1 = dropWhile is_js_space s;
          sgn1 = (if take 1 s1 = ''-'' then - 1 else 1 :: int);
          s2 = (if take 1 s1 = ''-'' \<or> take 1 s1 = ''+'' then drop 1 s1 else s1);
          s3 = (if take 2 s2 = ''0x'' \<or> take 2 s2 = ''0X'' then drop 2 s2 else s2)
      in case hex_digits s3 None of None \<Rightarrow> None | Some v \<Rightarrow> Some (sgn1 * int v))"

text \<open>\<^verbatim>\<open>Math.round(c * a + bg * (1 - a))\<close>\<close>

definition composite :: "byte option \<Rightarrow> rat option \<Rightarrow> int option \<Rightarrow> int option" where
  "composite c a bg =
     (case c of None \<Rightarrow> None | Some c' \<Rightarrow>
        (case a of None \<Rightarrow> None | Some a' \<Rightarrow>
           (case bg of None \<Rightarrow> None | Some bg' \<Rightarrow>
              Some (Math_round (js_add (js_mul (byte_num c') a')
                                       (js_mul (of_int bg') (js_sub 1 a')))))))"

definition alpha_of :: "byte option \<Rightarrow> rat option" where
  "alpha_of a = (case a of None \<Rightarrow> None | Some a' \<Rightarrow> Some (js_div (byte_num a') 255))"

definition fill_step :: "int option \<Rightarrow> int option \<Rightarrow> int option \<Rightarrow> buffer \<Rightarrow> nat \<Rightarrow> buffer" where
  "fill_step bgR bgG bgB out k =
     (let i = 4 * k in
      out[i := to_uint8 bgR, i + 1 := to_uint8 bgG, i + 2 := to_uint8 bgB, i + 3 := 255])"

definition draw_pixel ::
  "buffer \<Rightarrow> nat \<Rightarrow> nat \<Rightarrow> int option \<Rightarrow> int option \<Rightarrow> int option \<Rightarrow> rat \<Rightarrow> nat \<Rightarrow> nat
   \<Rightarrow> nat \<Rightarrow> buffer \<Rightarrow> nat \<Rightarrow> buffer" where
  "draw_pixel rgbaBuf wd ht bgR bgG bgB scale offX offY y out x =
     (let srcX = nat (Math_floor (js_div (of_nat x) scale));
          srcY = nat (Math_floor (js_div (of_nat y) scale));
          sX = nat (min (int srcX) (int wd - 1));
          sY = nat (min (int srcY) (int ht - 1));
          srcIdx = (sY * wd + sX) * 4;
          r = buf_index rgbaBuf srcIdx;
          g = buf_index rgbaBuf (srcIdx + 1);
          b = buf_index rgbaBuf (srcIdx + 2);
          a = alpha_of (buf_index rgbaBuf (srcIdx + 3));
          dstX = x + offX;
          dstY = y + offY;
          dstIdx = (dstY * wd + dstX) * 4;
          nr = composite r a bgR;
          ng = composite g a bgG;
          nb = composite b a bgB
      in out[dstIdx := to_uint8 nr, dstIdx + 1 := to_uint8 ng, dstIdx + 2 := to_uint8 nb,
             dstIdx + 3 := 255])"

text \<open>The compositor the handler calls: the image drawn at 80 percent, centred.
  \<open>draw_scaled\<close> is the body after the output buffer has been allocated.\<close>

definition draw_scaled :: "buffer \<Rightarrow> nat \<Rightarrow> nat \<Rightarrow> string \<Rightarrow> buffer" where
  "draw_scaled rgbaBuf wd ht bgHex =
     (let bgR = parseInt16 (slice bgHex 1 3);
          bgG = parseInt16 (slice bgHex 3 5);
          bgB = parseInt16 (slice bgHex 5 7);
          out0 = replicate (wd * ht * 4) 0;
          out1 = foldl (fill_step bgR bgG bgB) out0 [0..<(length out0 + 3) div 4];
          scale = js_lit (8 / 10);
          scaledW = nat (Math_floor (js_mul (of_nat wd) scale));
          scaledH = nat (Math_floor (js_mul (of_nat ht) scale));
          offX = nat (Math_floor (js_div (js_sub (of_nat wd) (of_nat scaledW)) 2));
          offY = nat (Math_floor (js_div (js_sub (of_nat ht) (of_nat scaledH)) 2))
      in foldl (\<lambda>out y.
                  foldl (draw_pixel rgbaBuf wd ht bgR bgG bgB scale offX offY y) out
                    [0..<scaledW])
           out1 [0..<scaledH])"

definition flattenRGBA :: "runtime \<Rightarrow> buffer \<Rightarrow> nat \<Rightarrow> nat \<Rightarrow> string \<Rightarrow> buffer option" where
  "flattenRGBA rt rgbaBuf wd ht bgHex =
     (if wd * ht * 4 > kMaxLength rt then None
      else Some (draw_scaled rgbaBuf wd ht bgHex))"

text \<open>The earlier compositor kept in the repository (two arguments, no scaling).\<close>

definition blend_step :: "buffer \<Rightarrow> int option \<Rightarrow> int option \<Rightarrow> int option \<Rightarrow> buffer \<Rightarrow> nat \<Rightarrow> buffer" where
  "blend_step rgbaBuf bgR bgG bgB out k =
     (let i = 4 * k;
          r = buf_index rgbaBuf i; g = buf_index rgbaBuf (i + 1);
          b = buf_index rgbaBuf (i + 2); a = alpha_of (buf_index rgbaBuf (i + 3));
          nr = composite r a bgR;
          ng = composite g a bgG;
          nb = composite b a bgB
      in out[i := to_uint8 nr, i + 1 := to_uint8 ng, i + 2 := to_uint8 nb, i + 3 := 255])"

definition blend_all :: "buffer \<Rightarrow> string \<Rightarrow> buffer" where
  "blend_all rgbaBuf bgHex =
     (let bgR = parseInt16 (slice bgHex 1 3);
          bgG = parseInt16 (slice bgHex 3 5);
          bgB = parseInt16 (slice bgHex 5 7)
      in foldl (blend_step rgbaBuf bgR bgG bgB) (replicate (length rgbaBuf) 0)
           [0..<(length rgbaBuf + 3) div 4])"

definition flattenRGBA_full :: "runtime \<Rightarrow> buffer \<Rightarrow> string \<Rightarrow> buffer option" where
  "flattenRGBA_full rt rgbaBuf bgHex =
     (if length rgbaBuf > kMaxLength rt then None else Some (blend_all rgbaBuf bgHex))"

section \<open>The processing step of the handler\<close>

text \<open>\<^verbatim>\<open>avgLuma < LUMINANCE_THRESHOLD\<close> is false for \<^verbatim>\<open>NaN\<close>.\<close>

definition choose_bgHex :: "rat option \<Rightarrow> string" where
  "choose_bgHex luma =
     (if (case luma of None \<Rightarrow> False | Some l \<Rightarrow> l < LUMINANCE_THRESHOLD)
      then ''#ffffff'' else ''#1f1f1f'')"

text \<open>From the fetched \<open>(buffer, mime)\<close> to the pair that is turned into the data URI.
  An exception of \<^verbatim>\<open>flattenRGBA\<close> or \<^verbatim>\<open>encodePNG\<close> is caught and falls through to the
  original bytes.\<close>

definition handler_process :: "runtime \<Rightarrow> buffer \<Rightarrow> string \<Rightarrow> buffer \<times> string" where
  "handler_process rt buffer mime =
     (if mime = ''image/png'' then
        case parsePNG rt buffer of
          None \<Rightarrow> (buffer, mime)
        | Some parsed \<Rightarrow>
            let an = analyzeRGBA (data parsed) in
            if transparentRatio an \<ge> TRANSPARENT_RATIO_THRESHOLD then
              let bgHex = choose_bgHex (avgLuma an) in
              (case flattenRGBA rt (data parsed) (width parsed) (height parsed) bgHex of
                 None \<Rightarrow> (buffer, mime)
               | Some flattened \<Rightarrow>
                   (case encodePNG rt flattened (width parsed) (height parsed) of
                      None \<Rightarrow> (buffer, mime)
                    | Some pngOut \<Rightarrow> (pngOut, ''image/png'')))
            else (buffer, mime)
      else (buffer, mime))"

section \<open>The chunk sequence of a stream\<close>

text \<open>The chunks that the loop of \<^verbatim>\<open>parsePNG\<close> frames, in stream order, up to and
  including the first IEND: the type, and where the data starts and ends. The four bytes
  from the end of the data are the CRC field of the chunk.\<close>

function chunk_walk :: "buffer \<Rightarrow> nat \<Rightarrow> (string \<times> nat \<times> nat) list" where
  "chunk_walk buf offset =
     (if offset < length buf then
        if offset + 8 > length buf then []
        else
          (case readUInt32BE buf offset of
             None \<Rightarrow> []
           | Some len \<Rightarrow>
               let type = toString_ascii buf (offset + 4) (offset + 8);
                   dataStart = offset + 8;
                   dataEnd = dataStart + len
               in if dataEnd + 4 > length buf then []
                  else (type, dataStart, dataEnd)
                         # (if type = ''IEND'' then [] else chunk_walk buf (dataEnd + 4)))
      else [])"
  by pat_completeness auto
termination
  by (relation "measure (\<lambda>(buf, offset). length buf - offset)") auto

declare chunk_walk.simps [simp del]

definition chunk_types :: "buffer \<Rightarrow> string list" where
  "chunk_types buf = map fst (chunk_walk buf 8)"

text \<open>The positions of the CRC fields of the chunks framed from \<open>offset\<close> on.\<close>

definition crc_offsets_from :: "buffer \<Rightarrow> nat \<Rightarrow> nat list" where
  "crc_offsets_from buf offset = concat (map (\<lambda>(t, s, e). [e..<e + 4]) (chunk_walk buf offset))"

definition crc_offsets :: "buffer \<Rightarrow> nat list" where
  "crc_offsets buf = crc_offsets_from buf 8"

text \<open>The IHDR chunks among the framed chunks, and the width and height that the last of
  them declares: the first two 32-bit fields of its data.\<close>

definition header_chunks_from :: "buffer \<Rightarrow> nat \<Rightarrow> (string \<times> nat \<times> nat) list" where
  "header_chunks_from buf offset = filter (\<lambda>c. fst c = ''IHDR'') (chunk_walk buf offset)"

definition header_chunks :: "buffer \<Rightarrow> (string \<times> nat \<times> nat) list" where
  "header_chunks buf = header_chunks_from buf 8"

definition declared_size :: "buffer \<Rightarrow> (nat \<times> nat) option" where
  "declared_size buf =
     (case header_chunks buf of
        [] \<Rightarrow> None
      | c # cs \<Rightarrow>
          (case last (c # cs) of
             (t, s, e) \<Rightarrow>
               (case readUInt32BE (slice buf s e) 0 of
                  None \<Rightarrow> None
                | Some w \<Rightarrow>
                    (case readUInt32BE (slice buf s e) 4 of
                       None \<Rightarrow> None
                     | Some h \<Rightarrow> Some (w, h)))))"

section \<open>A zlib that uses stored blocks only\<close>

text \<open>
  A concrete runtime for closed examples. \<open>inflate_stored\<close> inflates the zlib streams
  (RFC 1950) whose deflate blocks are all stored blocks (RFC 1951, BTYPE 00) and checks the
  Adler-32 trailer; it refuses every other stream. \<open>deflate_stored\<close> writes such a
  stream, as zlib does at compression level 0.
\<close>

definition adler32 :: "buffer \<Rightarrow> nat" where
  "adler32 buf =
     (let (a, b) = foldl (\<lambda>(a, b) x. let a' = (a + unat x) mod 65521
                                      in (a', (b + a') mod 65521)) (1, 0) buf
      in b * 65536 + a)"

function (sequential) inflate_blocks :: "buffer \<Rightarrow> (buffer \<times> buffer) option" where
  "inflate_blocks (h # l0 # l1 # n0 # n1 # rest) =
     (let len = unat l0 + 256 * unat l1; nlen = unat n0 + 256 * unat n1 in
      if h AND 6 \<noteq> 0 \<or> len + nlen \<noteq> 65535 \<or> length rest < len then None
      else if h AND 1 = 1 then Some (take len rest, drop len rest)
      else (case inflate_blocks (drop len rest) of
              None \<Rightarrow> None
            | Some (d, r) \<Rightarrow> Some (take len rest @ d, r)))"
| "inflate_blocks _ = None"
  by pat_completeness auto
termination
  by (relation "measure length") auto

definition inflate_stored :: "buffer \<Rightarrow> buffer option" where
  "inflate_stored buf =
     (case buf of
        cmf # flg # rest \<Rightarrow>
          if cmf AND 0x0f \<noteq> 8 \<or> drop_bit 4 cmf > 7 \<or> (unat cmf * 256 + unat flg) mod 31 \<noteq> 0
             \<or> flg AND 0x20 \<noteq> 0
          then None
          else (case inflate_blocks rest of
                  None \<Rightarrow> None
                | Some (d, trailer) \<Rightarrow>
                    if length trailer = 4 \<and> readUInt32BE trailer 0 = Some (adler32 d) then Some d
                    else None)
      | _ \<Rightarrow> None)"

function stored_blocks :: "buffer \<Rightarrow> buffer" where
  "stored_blocks d =
     (if length d \<le> 65535
      then [1, of_nat (length d), of_nat (length d div 256),
            of_nat (65535 - length d), of_nat ((65535 - length d) div 256)] @ d
      else [0, 0xff, 0xff, 0, 0] @ take 65535 d @ stored_blocks (drop 65535 d))"
  by pat_completeness auto
termination
  by (relation "measure length") auto

declare stored_blocks.simps [simp del]

definition deflate_stored :: "buffer \<Rightarrow> buffer option" where
  "deflate_stored d =
     (case writeUInt32BE (adler32 d) of
        None \<Rightarrow> None
      | Some trailer \<Rightarrow> Some ([0x78, 0x01] @ stored_blocks d @ trailer))"

definition node_stored :: runtime where
  "node_stored =
     \<lparr>inflateSync = inflate_stored, deflateSync = deflate_stored, kMaxLength = 2 ^ 32\<rparr>"

section \<open>The analyzer, stated on pixels\<close>

text \<open>What the analyzer is meant to compute, on the list of pixels of a buffer: a pixel
  is transparent when its alpha is below 128; the average luminance is the sum of the
  luminances of the other pixels, added in buffer order, divided by their number, and 255
  when there is none.\<close>

fun pixels_of :: "buffer \<Rightarrow> (byte \<times> byte \<times> byte \<times> byte) list" where
  "pixels_of (r # g # b # a # rest) = (r, g, b, a) # pixels_of rest"
| "pixels_of _ = []"

definition transparent_px :: "byte \<times> byte \<times> byte \<times> byte \<Rightarrow> bool" where
  "transparent_px p = (case p of (r, g, b, a) \<Rightarrow> unat a < 128)"

definition px_lum :: "byte \<times> byte \<times> byte \<times> byte \<Rightarrow> rat" where
  "px_lum p = (case p of (r, g, b, a) \<Rightarrow> lum_of r g b)"


section \<open>Concrete buffers\<close>

text \<open>A 2 by 2 image, pixels in row-major order: the upper row fully transparent black,
  the lower row opaque black.\<close>

definition rgba_2x2 :: buffer where
  "rgba_2x2 = [0, 0, 0, 0,  0, 0, 0, 0,  0, 0, 0, 255,  0, 0, 0, 255]"


text \<open>The PNG file of \<open>rgba_2x2\<close>: IHDR (2 by 2, 8 bit, RGBA), one IDAT whose zlib stream is
  a single stored block (filter byte 0 before each row), IEND.\<close>

definition png_2x2 :: buffer where
  "png_2x2 =
     [137, 80, 78, 71, 13, 10, 26, 10,
      0, 0, 0, 13,  73, 72, 68, 82,  0, 0, 0, 2,  0, 0, 0, 2,  8, 6, 0, 0, 0,  114, 182, 13, 36,
      0, 0, 0, 29,  73, 68, 65, 84,
        120, 1,  1, 18, 0, 237, 255,
        0,  0, 0, 0, 0,  0, 0, 0, 0,
        0,  0, 0, 0, 255,  0, 0, 0, 255,
        6, 12, 1, 255,
      122, 104, 125, 183,
      0, 0, 0, 0,  73, 69, 78, 68,  174, 66, 96, 130]"

text \<open>The PNG file of a single opaque white pixel.\<close>

definition png_1x1_white :: buffer where
  "png_1x1_white =
     [137, 80, 78, 71, 13, 10, 26, 10,
      0, 0, 0, 13,  73, 72, 68, 82,  0, 0, 0, 1,  0, 0, 0, 1,  8, 6, 0, 0, 0,  31, 21, 196, 137,
      0, 0, 0, 16,  73, 68, 65, 84,
        120, 1,  1, 5, 0, 250, 255,
        0,  255, 255, 255, 255,
        9, 251, 3, 253,
      163, 209, 73, 10,
      0, 0, 0, 0,  73, 69, 78, 68,  174, 66, 96, 130]"

text \<open>The same file with every CRC field overwritten.\<close>

definition png_1x1_white_crc0 :: buffer where
  "png_1x1_white_crc0 =
     [137, 80, 78, 71, 13, 10, 26, 10,
      0, 0, 0, 13,  73, 72, 68, 82,  0, 0, 0, 1,  0, 0, 0, 1,  8, 6, 0, 0, 0,  0, 0, 0, 0,
      0, 0, 0, 16,  73, 68, 65, 84,
        120, 1,  1, 5, 0, 250, 255,
        0,  255, 255, 255, 255,
        9, 251, 3, 253,
      1, 2, 3, 4,
      0, 0, 0, 0,  73, 69, 78, 68,  255, 255, 255, 255]"

text \<open>The white pixel again, with the IDAT chunk before the IHDR chunk.\<close>

definition png_idat_first :: buffer where
  "png_idat_first =
     [137, 80, 78, 71, 13, 10, 26, 10,
      0, 0, 0, 16,  73, 68, 65, 84,
        120, 1,  1, 5, 0, 250, 255,  0,  255, 255, 255, 255,  9, 251, 3, 253,
      163, 209, 73, 10,
      0, 0, 0, 13,  73, 72, 68, 82,  0, 0, 0, 1,  0, 0, 0, 1,  8, 6, 0, 0, 0,  31, 21, 196, 137,
      0, 0, 0, 0,  73, 69, 78, 68,  174, 66, 96, 130]"

text \<open>The white pixel with two IHDR chunks: 2 by 2, then 1 by 1.\<close>

definition png_ihdr_twice :: buffer where
  "png_ihdr_twice =
     [137, 80, 78, 71, 13, 10, 26, 10,
      0, 0, 0, 13,  73, 72, 68, 82,  0, 0, 0, 2,  0, 0, 0, 2,  8, 6, 0, 0, 0,  114, 182, 13, 36,
      0, 0, 0, 13,  73, 72, 68, 82,  0, 0, 0, 1,  0, 0, 0, 1,  8, 6, 0, 0, 0,  31, 21, 196, 137,
      0, 0, 0, 16,  73, 68, 65, 84,
        120, 1,  1, 5, 0, 250, 255,  0,  255, 255, 255, 255,  9, 251, 3, 253,
      163, 209, 73, 10,
      0, 0, 0, 0,  73, 69, 78, 68,  174, 66, 96, 130]"



text \<open>The white pixel with the highest bit set in two type bytes of the IHDR chunk.\<close>

definition png_1x1_high_bit :: buffer where
  "png_1x1_high_bit =
     [137, 80, 78, 71, 13, 10, 26, 10,
      0, 0, 0, 13,  201, 72, 196, 82,  0, 0, 0, 1,  0, 0, 0, 1,  8, 6, 0, 0, 0,  31, 21, 196, 137,
      0, 0, 0, 16,  73, 68, 65, 84,
        120, 1,  1, 5, 0, 250, 255,  0,  255, 255, 255, 255,  9, 251, 3, 253,
      163, 209, 73, 10,
      0, 0, 0, 0,  73, 69, 78, 68,  174, 66, 96, 130]"


text \<open>A stream that ends after an IHDR chunk with two bytes of data.\<close>

definition png_short_ihdr :: buffer where
  "png_short_ihdr =
     [137, 80, 78, 71, 13, 10, 26, 10,
      0, 0, 0, 2,  73, 72, 68, 82,  1, 2,  125, 77, 140, 86]"

section \<open>Invariants used in the proofs\<close>

text \<open>One iteration of the loop of \<^verbatim>\<open>analyzeRGBA\<close> on a whole pixel.\<close>

definition count_px :: "counters \<Rightarrow> byte \<times> byte \<times> byte \<times> byte \<Rightarrow> counters" where
  "count_px s p =
     (if transparent_px p then s\<lparr>transparentCount := transparentCount s + 1\<rparr>
      else s\<lparr>lumSum := nan_add (lumSum s) (Some (px_lum p)), lumCount := lumCount s + 1\<rparr>)"

text \<open>The alpha byte of each of the first \<open>n\<close> pixels that lie inside the buffer is 255.\<close>

definition alpha_inv :: "nat \<Rightarrow> buffer \<Rightarrow> bool" where
  "alpha_inv n out = (\<forall>k<n. 4 * k + 3 < length out \<longrightarrow> out ! (4 * k + 3) = 255)"

section \<open>Scanline reconstruction, stated on rows\<close>

text \<open>The rows that the scanline loop hands on: each row is defiltered against the
  defiltered row before it.\<close>

fun scan_rows :: "(buffer \<Rightarrow> buffer \<Rightarrow> buffer) \<Rightarrow> buffer \<Rightarrow> buffer list \<Rightarrow> buffer list" where
  "scan_rows F prev [] = []"
| "scan_rows F prev (r # rs) = F prev r # scan_rows F (F prev r) rs"






section \<open>Scanline filters\<close>

lemma replicate_16: "replicate 16 (x::byte) = [x, x, x, x, x, x, x, x, x, x, x, x, x, x, x, x]"
  by (simp add: numeral_eq_Suc)

lemma replicate_4: "replicate 4 (x::byte) = [x, x, x, x]"
  by (simp add: numeral_eq_Suc)

lemma length_paeth_step [simp]:
  "length (paeth_step bpp prevLine cur i) = length cur"
  by (simp add: paeth_step_def Let_def)

lemma length_paeth_fold [simp]:
  "length (foldl (paeth_step bpp prevLine) cur is) = length cur"
  by (induction "is" arbitrary: cur) simp_all





lemma length_scan_rows [simp]: "length (scan_rows F prev rows) = length rows"
  by (induction rows arbitrary: prev) simp_all






lemma length_unfilter_paeth [simp]: "length (unfilter_paeth bpp n prev cur) = length cur"
  by (simp add: unfilter_paeth_def)






section \<open>Rounding to binary64\<close>

lemma bit_length_nonpos [simp]: "n \<le> 0 \<Longrightarrow> bit_length n = 0"
  by (simp add: bit_length.simps)

lemma bit_length_pos: "0 < n \<Longrightarrow> bit_length n = 1 + bit_length (n div 2)"
  by (subst bit_length.simps) simp

lemma bit_length_ge0: "0 \<le> bit_length n"
  by (induction n rule: bit_length.induct) (subst bit_length.simps, simp)

lemma bit_length_bounds:
  "0 < n \<Longrightarrow> 2 ^ nat (bit_length n - 1) \<le> n \<and> n < 2 ^ nat (bit_length n)"
proof (induction n rule: bit_length.induct)
  case (1 n)
  show ?case
  proof (cases "n = 1")
    case True
    then show ?thesis by (simp add: bit_length_pos)
  next
    case False
    with "1.prems" have h: "0 < n div 2" by simp
    with "1.IH" "1.prems"
    have ih: "2 ^ nat (bit_length (n div 2) - 1) \<le> n div 2" "n div 2 < 2 ^ nat (bit_length (n div 2))"
      by simp_all
    have b1: "1 \<le> bit_length (n div 2)"
      using h bit_length_ge0 [of "n div 2 div 2"] by (simp add: bit_length_pos)
    have e: "bit_length n = 1 + bit_length (n div 2)"
      using "1.prems" by (rule bit_length_pos)
    have "nat (bit_length n - 1) = Suc (nat (bit_length (n div 2) - 1))"
      using b1 e by simp
    moreover have "nat (bit_length n) = Suc (nat (bit_length (n div 2)))"
      using b1 e by simp
    moreover have "2 * (n div 2) \<le> n" "n < 2 * (n div 2) + 2"
      by presburger+
    ultimately show ?thesis using ih by simp
  qed
qed

lemma ilog2_bounds:
  assumes "0 < x"
  shows "2 powi ilog2 x \<le> x \<and> x < 2 powi (ilog2 x + 1)"
proof (cases "1 \<le> x")
  case True
  then have f: "0 < \<lfloor>x\<rfloor>" by simp
  let ?b = "bit_length \<lfloor>x\<rfloor>"
  from bit_length_bounds [OF f]
  have b: "2 ^ nat (?b - 1) \<le> \<lfloor>x\<rfloor>" "\<lfloor>x\<rfloor> < 2 ^ nat ?b" by simp_all
  have b1: "1 \<le> ?b"
    using f bit_length_ge0 [of "\<lfloor>x\<rfloor> div 2"] by (simp add: bit_length_pos)
  have e: "ilog2 x = ?b - 1" using True by (simp add: ilog2_def)
  have "(2::rat) powi (?b - 1) = of_int (2 ^ nat (?b - 1))"
    using b1 by (simp add: power_int_def)
  also have "\<dots> \<le> of_int \<lfloor>x\<rfloor>" using b(1) by (simp only: of_int_le_iff simp_thms)
  also have "\<dots> \<le> x" by simp
  finally have l: "2 powi ilog2 x \<le> x" by (simp add: e)
  have "\<lfloor>x\<rfloor> + 1 \<le> 2 ^ nat ?b" using b(2) by simp
  then have "of_int (\<lfloor>x\<rfloor> + 1) \<le> (of_int (2 ^ nat ?b) :: rat)" by (simp only: of_int_le_iff simp_thms)
  moreover have "x < of_int (\<lfloor>x\<rfloor> + 1)" by linarith
  moreover have "(2::rat) powi ?b = of_int (2 ^ nat ?b)"
    using b1 by (simp add: power_int_def)
  ultimately have "x < 2 powi (ilog2 x + 1)" by (simp add: e)
  with l show ?thesis by simp
next
  case False
  with assms have x1: "x < 1" by simp
  let ?m = "\<lceil>1 / x\<rceil> - 1"
  have "1 < 1 / x" using assms x1 by simp
  then have m: "0 < ?m" by linarith
  let ?k = "bit_length ?m"
  from bit_length_bounds [OF m]
  have b: "2 ^ nat (?k - 1) \<le> ?m" "?m < 2 ^ nat ?k" by simp_all
  have k1: "1 \<le> ?k"
    using m bit_length_ge0 [of "?m div 2"] by (simp add: bit_length_pos)
  have e: "ilog2 x = - ?k" using False by (simp add: ilog2_def)
  have "\<lceil>1 / x\<rceil> \<le> 2 ^ nat ?k" using b(2) by simp
  then have "1 / x \<le> of_int (2 ^ nat ?k)" by (simp only: ceiling_le_iff simp_thms)
  then have "1 / x \<le> 2 ^ nat ?k" by simp
  then have "1 \<le> 2 ^ nat ?k * x" using assms by (simp add: field_simps)
  then have l: "2 powi (- ?k) \<le> x"
    using k1 by (simp add: power_int_def field_simps)
  have "\<not> \<lceil>1 / x\<rceil> \<le> 2 ^ nat (?k - 1)" using b(1) by simp
  then have "\<not> 1 / x \<le> of_int (2 ^ nat (?k - 1))" by (simp only: ceiling_le_iff simp_thms)
  then have "\<not> 1 / x \<le> 2 ^ nat (?k - 1)" by (simp only: of_int_power of_int_numeral simp_thms)
  then have "2 ^ nat (?k - 1) < 1 / x" by (simp only: not_le simp_thms)
  then have "2 ^ nat (?k - 1) * x < 1" using assms by (simp add: field_simps)
  then have "x < 1 / 2 ^ nat (?k - 1)" by (simp add: field_simps)
  moreover have "(2::rat) powi (- (?k - 1)) = 1 / (2 powi (?k - 1))"
    by (rule power_int_minus_divide)
  moreover have "(2::rat) powi (?k - 1) = 2 ^ nat (?k - 1)"
    using k1 by (simp add: power_int_nonneg_exp)
  ultimately have u: "x < 2 powi (- ?k + 1)" by simp
  from l u show ?thesis by (simp add: e)
qed

lemma powi2_less_D: "(2::rat) powi a < 2 powi b \<Longrightarrow> a < b"
proof (rule ccontr)
  assume h: "(2::rat) powi a < 2 powi b" and "\<not> a < b"
  then have "b \<le> a" by simp
  then have "(2::rat) powi b \<le> 2 powi a" by (rule power_int_increasing) simp_all
  with h show False by simp
qed

lemma powi2_le_D: "(2::rat) powi a \<le> 2 powi b \<Longrightarrow> a \<le> b"
proof (rule ccontr)
  assume h: "(2::rat) powi a \<le> 2 powi b" and "\<not> a \<le> b"
  then have "b < a" by simp
  then have "(2::rat) powi b < 2 powi a" by (rule power_int_strict_increasing) simp
  with h show False by simp
qed

lemma powi2_le_I: "a \<le> b \<Longrightarrow> (2::rat) powi a \<le> 2 powi b"
  by (rule power_int_increasing) simp_all

lemma ilog2_unique:
  assumes "0 < x" "2 powi e \<le> x" "x < 2 powi (e + 1)"
  shows "ilog2 x = e"
proof -
  from ilog2_bounds [OF assms(1)]
  have b: "2 powi ilog2 x \<le> x" "x < 2 powi (ilog2 x + 1)" by simp_all
  have "(2::rat) powi e < 2 powi (ilog2 x + 1)" using assms(2) b(2) by simp
  then have "e < ilog2 x + 1" by (rule powi2_less_D)
  moreover have "(2::rat) powi ilog2 x < 2 powi (e + 1)" using assms(3) b(1) by simp
  then have "ilog2 x < e + 1" by (rule powi2_less_D)
  ultimately show ?thesis by simp
qed

lemma ilog2_mono:
  assumes "0 < x" "x \<le> y"
  shows "ilog2 x \<le> ilog2 y"
proof -
  have "0 < y" using assms by simp
  from ilog2_bounds [OF assms(1)] ilog2_bounds [OF this] assms(2)
  have "(2::rat) powi ilog2 x < 2 powi (ilog2 y + 1)" by simp
  then have "ilog2 x < ilog2 y + 1" by (rule powi2_less_D)
  then show ?thesis by simp
qed

lemma rne_of_int [simp]: "rne (of_int n) = n"
  by (simp add: rne_def)

lemma rne_cases: "rne x = \<lfloor>x\<rfloor> \<or> rne x = \<lfloor>x\<rfloor> + 1"
  by (simp add: rne_def Let_def)

lemma rne_mono:
  assumes "x \<le> y"
  shows "rne x \<le> rne y"
proof (cases "\<lfloor>x\<rfloor> = \<lfloor>y\<rfloor>")
  case True
  have "x - of_int \<lfloor>x\<rfloor> \<le> y - of_int \<lfloor>y\<rfloor>" using assms True by simp
  then show ?thesis
    by (auto simp add: rne_def Let_def True)
next
  case False
  with assms have "\<lfloor>x\<rfloor> < \<lfloor>y\<rfloor>" using floor_mono [OF assms] by simp
  then have "\<lfloor>x\<rfloor> + 1 \<le> \<lfloor>y\<rfloor>" by simp
  moreover have "rne x \<le> \<lfloor>x\<rfloor> + 1" using rne_cases [of x] by auto
  moreover have "\<lfloor>y\<rfloor> \<le> rne y" using rne_cases [of y] by auto
  ultimately show ?thesis by simp
qed

lemma fl_0 [simp]: "fl 0 = 0"
  by (simp add: fl_def)

lemma fl_pos_eq:
  "0 < x \<Longrightarrow> fl x = of_int (rne (x / 2 powi (ilog2 x - 52))) * 2 powi (ilog2 x - 52)"
  by (simp add: fl_def Let_def)

lemma fl_lower:
  assumes "0 < x"
  shows "2 powi ilog2 x \<le> fl x"
proof -
  let ?u = "(2::rat) powi (ilog2 x - 52)"
  have u: "0 < ?u" by simp
  have "2 powi ilog2 x \<le> x" using ilog2_bounds [OF assms] by simp
  then have "2 powi ilog2 x / ?u \<le> x / ?u" using u by (simp add: divide_right_mono)
  moreover have "(2::rat) powi ilog2 x / ?u = 2 powi 52"
    by (simp add: power_int_diff)
  ultimately have "of_int (2 ^ 52) \<le> x / ?u" by simp
  then have "rne (of_int (2 ^ 52)) \<le> rne (x / ?u)" by (rule rne_mono)
  then have "(2 ^ 52 :: int) \<le> rne (x / ?u)" by (simp only: rne_of_int)
  then have "(of_int (2 ^ 52) :: rat) \<le> of_int (rne (x / ?u))" by (simp only: of_int_le_iff)
  then have A: "of_int (2 ^ 52) * ?u \<le> of_int (rne (x / ?u)) * ?u"
    using u by (simp only: mult_le_cancel_right_pos)
  have B: "of_int (2 ^ 52) * ?u = 2 powi ilog2 x"
    by (simp add: power_int_diff)
  from A [unfolded B] show ?thesis by (simp only: fl_pos_eq [OF assms])
qed

lemma fl_upper:
  assumes "0 < x"
  shows "fl x \<le> 2 powi (ilog2 x + 1)"
proof -
  let ?u = "(2::rat) powi (ilog2 x - 52)"
  have u: "0 < ?u" by simp
  have "x < 2 powi (ilog2 x + 1)" using ilog2_bounds [OF assms] by simp
  then have "x / ?u \<le> 2 powi (ilog2 x + 1) / ?u" using u by (simp add: divide_right_mono)
  moreover have "(2::rat) powi (ilog2 x + 1) / ?u = 2 powi 53"
    by (simp add: power_int_diff power_int_add)
  ultimately have "x / ?u \<le> of_int (2 ^ 53)" by simp
  then have "rne (x / ?u) \<le> rne (of_int (2 ^ 53))" by (rule rne_mono)
  then have "rne (x / ?u) \<le> (2 ^ 53 :: int)" by (simp only: rne_of_int)
  then have "of_int (rne (x / ?u)) \<le> (of_int (2 ^ 53) :: rat)" by (simp only: of_int_le_iff)
  then have A: "of_int (rne (x / ?u)) * ?u \<le> of_int (2 ^ 53) * ?u"
    using u by (simp only: mult_le_cancel_right_pos)
  have B: "of_int (2 ^ 53) * ?u = 2 powi (ilog2 x + 1)"
    by (simp add: power_int_diff power_int_add)
  from A [unfolded B] show ?thesis by (simp only: fl_pos_eq [OF assms])
qed

lemma fl_mono_pos:
  assumes "0 < x" "x \<le> y"
  shows "fl x \<le> fl y"
proof (cases "ilog2 x = ilog2 y")
  case True
  let ?u = "(2::rat) powi (ilog2 y - 52)"
  have u: "0 < ?u" by simp
  have y: "0 < y" using assms by simp
  have "x / ?u \<le> y / ?u" using assms(2) u by (simp add: divide_right_mono)
  then have "rne (x / ?u) \<le> rne (y / ?u)" by (rule rne_mono)
  then have "(of_int (rne (x / ?u)) :: rat) \<le> of_int (rne (y / ?u))" by (simp only: of_int_le_iff)
  then have "of_int (rne (x / ?u)) * ?u \<le> of_int (rne (y / ?u)) * ?u"
    using u by (simp only: mult_le_cancel_right_pos)
  then show ?thesis by (simp only: fl_pos_eq [OF assms(1)] fl_pos_eq [OF y] True)
next
  case False
  have y: "0 < y" using assms by simp
  from False ilog2_mono [OF assms] have "ilog2 x + 1 \<le> ilog2 y" by simp
  then have "(2::rat) powi (ilog2 x + 1) \<le> 2 powi ilog2 y" by (rule powi2_le_I)
  with fl_upper [OF assms(1)] fl_lower [OF y] show ?thesis by simp
qed

lemma fl_nonneg: "0 \<le> x \<Longrightarrow> 0 \<le> fl x"
proof (cases "x = 0")
  case True
  then show ?thesis by simp
next
  case False
  assume "0 \<le> x"
  with False have x: "0 < x" by simp
  have "(0::rat) \<le> 2 powi ilog2 x" by simp
  then show ?thesis using fl_lower [OF x] by (rule order_trans)
qed

lemma fl_mono:
  assumes "0 \<le> x" "x \<le> y"
  shows "fl x \<le> fl y"
proof (cases "x = 0")
  case True
  with assms show ?thesis by (simp add: fl_nonneg)
next
  case False
  with assms have "0 < x" by simp
  then show ?thesis using assms(2) by (rule fl_mono_pos)
qed

lemma fl_powi2: "fl (2 powi e) = 2 powi e"
proof -
  let ?x = "(2::rat) powi e"
  have x: "0 < ?x" by simp
  have "?x < 2 powi (e + 1)" by (rule power_int_strict_increasing) simp_all
  with x have e: "ilog2 ?x = e" by (intro ilog2_unique) simp_all
  have "?x / 2 powi (e - 52) = of_int (2 ^ 52)" by (simp add: power_int_diff)
  then have "rne (?x / 2 powi (e - 52)) = 2 ^ 52" by (simp only: rne_of_int)
  then have "fl ?x = of_int (2 ^ 52) * 2 powi (e - 52)"
    by (simp only: fl_pos_eq [OF x] e)
  also have "\<dots> = ?x" by (simp add: power_int_diff)
  finally show ?thesis .
qed

text \<open>An integer below \<open>2 ^ 53\<close> divided by a power of two is a double.\<close>

lemma fl_dyadic:
  assumes "0 \<le> n" "n \<le> 2 ^ 53"
  shows "fl (of_int n / 2 ^ j) = of_int n / 2 ^ j"
proof (cases "n = 0")
  case True
  then show ?thesis by simp
next
  case False
  with assms have n: "0 < n" by simp
  let ?x = "of_int n / 2 ^ j :: rat"
  have x: "0 < ?x" using n by simp
  let ?e = "ilog2 ?x"
  let ?u = "(2::rat) powi (?e - 52)"
  have "(of_int n :: rat) \<le> of_int (2 ^ 53)" using assms(2) by (simp only: of_int_le_iff)
  then have "(of_int n :: rat) \<le> 2 ^ 53" by simp
  then have "?x \<le> 2 ^ 53 / 2 ^ j" by (simp add: divide_right_mono)
  also have "\<dots> = 2 powi (53 - int j)"
    by (simp add: power_int_diff)
  finally have xle: "?x \<le> 2 powi (53 - int j)" .
  have "2 powi ?e \<le> ?x" using ilog2_bounds [OF x] by simp
  with xle have "(2::rat) powi ?e \<le> 2 powi (53 - int j)" by simp
  then have ele: "?e \<le> 53 - int j" by (rule powi2_le_D)
  show ?thesis
  proof (cases "?e = 53 - int j")
    case True
    from ilog2_bounds [OF x, unfolded True] have "2 powi (53 - int j) \<le> ?x" by (rule conjunct1)
    with xle have "?x = 2 powi (53 - int j)" by (rule antisym)
    then show ?thesis by (simp only: fl_powi2)
  next
    case False
    with ele have k: "0 \<le> 52 - ?e - int j" by simp
    have "?x / ?u = of_int n * (2 powi (52 - ?e) / 2 ^ j)"
      by (simp add: power_int_diff field_simps)
    also have "2 powi (52 - ?e) / 2 ^ j = (2::rat) powi (52 - ?e - int j)"
      by (simp add: power_int_diff)
    also have "\<dots> = of_int (2 ^ nat (52 - ?e - int j))"
      using k by (simp add: power_int_nonneg_exp)
    finally have "?x / ?u = of_int (n * 2 ^ nat (52 - ?e - int j))" by simp
    then have "rne (?x / ?u) = n * 2 ^ nat (52 - ?e - int j)" by (simp only: rne_of_int)
    then have "fl ?x = of_int (n * 2 ^ nat (52 - ?e - int j)) * ?u"
      using x by (simp only: fl_pos_eq)
    also have "\<dots> = of_int n * ((2::rat) powi (52 - ?e - int j) * ?u)"
      using k by (simp add: power_int_nonneg_exp)
    also have "(2::rat) powi (52 - ?e - int j) * ?u = 2 powi (- int j)"
      by (simp add: power_int_add [symmetric])
    also have "\<dots> = 1 / 2 ^ j" by (simp add: power_int_minus_divide)
    finally show ?thesis by simp
  qed
qed

lemma fl_of_nat: "n \<le> 2 ^ 53 \<Longrightarrow> fl (of_nat n) = of_nat n"
  using fl_dyadic [of "int n" 0] by simp

lemma fl_1: "fl 1 = 1"
  using fl_of_nat [of 1] by simp

lemma fl_255: "fl 255 = 255"
  using fl_of_nat [of 255] by simp

lemma fl_half: "fl (1 / 2) = 1 / 2"
  using fl_powi2 [of "- 1"] by simp

section \<open>Exact arithmetic on small values\<close>

lemma fl_numeral: "(numeral k :: nat) \<le> 2 ^ 53 \<Longrightarrow> fl (numeral k) = numeral k"
  using fl_of_nat [of "numeral k"] by simp

lemma parse_ff: "parseInt16 (slice ''#ffffff'' 1 3) = Some 255"
  "parseInt16 (slice ''#ffffff'' 3 5) = Some 255" "parseInt16 (slice ''#ffffff'' 5 7) = Some 255"
  by (simp_all add: parseInt16_def slice_def hex_digit_def is_js_space_def Let_def)

lemma scale_2: "nat (Math_floor (js_mul 2 (js_lit (8 / 10)))) = 1"
  by code_simp

lemma alpha_of_255: "alpha_of (Some 255) = Some 1"
  by (simp add: alpha_of_def byte_num_def js_div_def fl_1)

lemma alpha_of_0: "alpha_of (Some 0) = Some 0"
  by (simp add: alpha_of_def byte_num_def js_div_def)

lemma Math_round_of_nat: "Math_round (of_nat n) = int n"
  unfolding Math_round_def by (rule floor_unique) simp_all

lemma composite_opaque: "to_uint8 (composite (Some c) (Some 1) (Some 255)) = c"
proof -
  have "unat c \<le> 2 ^ 53" using unsigned_less [of c, where ?'a = nat] by simp
  then have r: "fl (of_nat (unat c)) = of_nat (unat c)" by (rule fl_of_nat)
  have "composite (Some c) (Some 1) (Some 255) = Some (Math_round (of_nat (unat c)))"
    by (simp add: composite_def byte_num_def js_mul_def js_sub_def js_add_def fl_1 r
          del: of_nat_unat)
  then have "to_uint8 (composite (Some c) (Some 1) (Some 255)) = word_of_int (int (unat c))"
    by (simp only: Math_round_of_nat to_uint8_def option.case)
  then show ?thesis by simp
qed

lemma Math_round_numeral: "Math_round (numeral k) = numeral k"
  using Math_round_of_nat [of "numeral k"] by simp

lemma composite_clear: "to_uint8 (composite (Some c) (Some 0) (Some 255)) = 255"
  by (simp add: composite_def byte_num_def js_mul_def js_sub_def js_add_def fl_1 fl_255
        Math_round_numeral to_uint8_def)

lemma off_2: "nat (Math_floor (js_div (js_sub 2 1) 2)) = 0"
  by code_simp

lemma src_0: "nat (Math_floor (js_div 0 s)) = 0"
  by (simp add: js_div_def Math_floor_def)

lemma fill_white_16:
  "foldl (fill_step (Some 255) (Some 255) (Some 255)) (replicate 16 0) [0..<4] = replicate 16 255"
  by (simp add: replicate_16 upt_rec fill_step_def to_uint8_def)

lemma draw_scaled_2x2_first:
  "draw_scaled [r0, g0, b0, a0, r1, g1, b1, a1, r2, g2, b2, a2, r3, g3, b3, a3] 2 2 ''#ffffff''
     = [to_uint8 (composite (Some r0) (alpha_of (Some a0)) (Some 255)),
        to_uint8 (composite (Some g0) (alpha_of (Some a0)) (Some 255)),
        to_uint8 (composite (Some b0) (alpha_of (Some a0)) (Some 255)), 255,
        255, 255, 255, 255,  255, 255, 255, 255,  255, 255, 255, 255]"
proof -
  let ?px = "[r0, g0, b0, a0, r1, g1, b1, a1, r2, g2, b2, a2, r3, g3, b3, a3]"
  have n: "(of_nat 2 :: rat) = 2" "(of_nat 1 :: rat) = 1" "(of_nat 0 :: rat) = 0" by simp_all
  have l: "(length (replicate (2 * 2 * 4) (0::byte)) + 3) div 4 = 4" "2 * 2 * 4 = (16::nat)"
    by simp_all
  have one: "[0..<1] = [0]" by (simp add: upt_rec)
  have d: "draw_pixel ?px 2 2 (Some 255) (Some 255) (Some 255) s 0 0 0
             (replicate 16 255) 0
        = [to_uint8 (composite (Some r0) (alpha_of (Some a0)) (Some 255)),
           to_uint8 (composite (Some g0) (alpha_of (Some a0)) (Some 255)),
           to_uint8 (composite (Some b0) (alpha_of (Some a0)) (Some 255)), 255,
           255, 255, 255, 255,  255, 255, 255, 255,  255, 255, 255, 255]"
    for s by (simp add: draw_pixel_def Let_def src_0 buf_index_def replicate_16)
  show ?thesis
    unfolding draw_scaled_def Let_def parse_ff n l scale_2 off_2 fill_white_16 one
    by (simp add: d fill_white_16)
qed


lemma blend_all_2x2_gen:
  "blend_all [r0, g0, b0, a0, r1, g1, b1, a1, r2, g2, b2, a2, r3, g3, b3, a3] ''#ffffff''
     = [to_uint8 (composite (Some r0) (alpha_of (Some a0)) (Some 255)),
        to_uint8 (composite (Some g0) (alpha_of (Some a0)) (Some 255)),
        to_uint8 (composite (Some b0) (alpha_of (Some a0)) (Some 255)), 255,
        to_uint8 (composite (Some r1) (alpha_of (Some a1)) (Some 255)),
        to_uint8 (composite (Some g1) (alpha_of (Some a1)) (Some 255)),
        to_uint8 (composite (Some b1) (alpha_of (Some a1)) (Some 255)), 255,
        to_uint8 (composite (Some r2) (alpha_of (Some a2)) (Some 255)),
        to_uint8 (composite (Some g2) (alpha_of (Some a2)) (Some 255)),
        to_uint8 (composite (Some b2) (alpha_of (Some a2)) (Some 255)), 255,
        to_uint8 (composite (Some r3) (alpha_of (Some a3)) (Some 255)),
        to_uint8 (composite (Some g3) (alpha_of (Some a3)) (Some 255)),
        to_uint8 (composite (Some b3) (alpha_of (Some a3)) (Some 255)), 255]"
  unfolding blend_all_def Let_def parse_ff
  by (simp add: replicate_16 upt_rec blend_step_def Let_def buf_index_def)

lemma lum_of_black: "lum_of 0 0 0 = 0"
  by (simp add: lum_of_def byte_num_def js_mul_def js_add_def)

lemma analyze_loop_2x2:
  assumes "a0 = 0 \<or> a0 = 255" "a1 = 0 \<or> a1 = 255" "a2 = 0 \<or> a2 = 255" "a3 = 0 \<or> a3 = 255"
  shows "analyze_loop [0, 0, 0, a0, 0, 0, 0, a1, 0, 0, 0, a2, 0, 0, 0, a3] 0
           \<lparr>transparentCount = 0, lumSum = Some 0, lumCount = 0\<rparr>
         = \<lparr>transparentCount = length (filter (\<lambda>a. a = 0) [a0, a1, a2, a3]),
            lumSum = Some 0,
            lumCount = length (filter (\<lambda>a. a = 255) [a0, a1, a2, a3])\<rparr>"
  using assms
  by (elim disjE)
     (simp_all add: analyze_loop.simps buf_index_def is_transparent_def ALPHA_THRESHOLD_def
        luminance_def lum_of_black nan_add_def js_add_def Let_def)

section \<open>The compositor\<close>

lemma alpha_inv_put:
  "alpha_inv n out \<Longrightarrow> alpha_inv n (out[4 * m := x, 4 * m + 1 := y, 4 * m + 2 := z, 4 * m + 3 := 255])"
  unfolding alpha_inv_def
proof (intro allI impI)
  fix k
  assume a: "\<forall>k<n. 4 * k + 3 < length out \<longrightarrow> out ! (4 * k + 3) = 255"
    and k: "k < n" "4 * k + 3 < length (out[4 * m := x, 4 * m + 1 := y, 4 * m + 2 := z, 4 * m + 3 := 255])"
  have ne: "4 * k + 3 \<noteq> 4 * m" "4 * k + 3 \<noteq> 4 * m + 1" "4 * k + 3 \<noteq> 4 * m + 2"
    by presburger+
  show "out[4 * m := x, 4 * m + 1 := y, 4 * m + 2 := z, 4 * m + 3 := 255] ! (4 * k + 3) = 255"
  proof (cases "k = m")
    case True
    with k show ?thesis by simp
  next
    case False
    then have "4 * k + 3 \<noteq> 4 * m + 3" by simp
    with ne a k show ?thesis by (simp add: nth_list_update)
  qed
qed

lemma alpha_inv_put_new:
  "alpha_inv n out \<Longrightarrow> alpha_inv (Suc n) (out[4 * n := x, 4 * n + 1 := y, 4 * n + 2 := z, 4 * n + 3 := 255])"
  using alpha_inv_put [of n out n x y z]
  by (auto simp add: alpha_inv_def less_Suc_eq)

lemma fill_step_length [simp]: "length (fill_step r g b out k) = length out"
  by (simp add: fill_step_def Let_def)

lemma fill_fold_length [simp]: "length (foldl (fill_step r g b) out ks) = length out"
  by (induction ks arbitrary: out) simp_all

lemma fill_step_alpha:
  "alpha_inv n out \<Longrightarrow> alpha_inv (Suc n) (fill_step r g b out n)"
  unfolding fill_step_def Let_def by (rule alpha_inv_put_new)

lemma fill_fold_alpha: "alpha_inv n (foldl (fill_step r g b) out [0..<n])"
proof (induction n)
  case 0
  show ?case by (simp add: alpha_inv_def)
next
  case (Suc n)
  then show ?case
    by (simp add: fill_step_alpha)
qed

lemma draw_pixel_length [simp]:
  "length (draw_pixel rgba wd ht r g b sc ox oy y out x) = length out"
  by (simp add: draw_pixel_def Let_def)

lemma draw_pixel_alpha:
  "alpha_inv n out \<Longrightarrow> alpha_inv n (draw_pixel rgba wd ht r g b sc ox oy y out x)"
  unfolding draw_pixel_def Let_def mult.commute [of _ 4]
  by (rule alpha_inv_put)

lemma draw_row_length [simp]:
  "length (foldl (draw_pixel rgba wd ht r g b sc ox oy y) out xs) = length out"
  by (induction xs arbitrary: out) simp_all

lemma draw_row_alpha:
  "alpha_inv n out \<Longrightarrow> alpha_inv n (foldl (draw_pixel rgba wd ht r g b sc ox oy y) out xs)"
  by (induction xs arbitrary: out) (simp_all add: draw_pixel_alpha)

lemma draw_rows_length [simp]:
  "length (foldl (\<lambda>out y. foldl (draw_pixel rgba wd ht r g b sc ox oy y) out xs) out ys) = length out"
  by (induction ys arbitrary: out) simp_all

lemma draw_rows_alpha:
  "alpha_inv n out \<Longrightarrow>
     alpha_inv n (foldl (\<lambda>out y. foldl (draw_pixel rgba wd ht r g b sc ox oy y) out xs) out ys)"
  by (induction ys arbitrary: out) (simp_all add: draw_row_alpha)

lemma draw_scaled_length: "length (draw_scaled rgba wd ht bg) = wd * ht * 4"
  by (simp add: draw_scaled_def Let_def)

lemma draw_scaled_alpha: "alpha_inv (wd * ht) (draw_scaled rgba wd ht bg)"
proof -
  have "(wd * ht * 4 + 3) div 4 = wd * ht" by simp
  then show ?thesis
    unfolding draw_scaled_def Let_def
    using fill_fold_alpha [of "wd * ht"]
    by (simp add: draw_rows_alpha)
qed

lemma blend_step_length [simp]: "length (blend_step rgba r g b out k) = length out"
  by (simp add: blend_step_def Let_def)

lemma blend_fold_length [simp]: "length (foldl (blend_step rgba r g b) out ks) = length out"
  by (induction ks arbitrary: out) simp_all

lemma blend_step_alpha:
  "alpha_inv n out \<Longrightarrow> alpha_inv (Suc n) (blend_step rgba r g b out n)"
  unfolding blend_step_def Let_def by (rule alpha_inv_put_new)

lemma blend_fold_alpha: "alpha_inv n (foldl (blend_step rgba r g b) out [0..<n])"
proof (induction n)
  case 0
  show ?case by (simp add: alpha_inv_def)
next
  case (Suc n)
  then show ?case
    by (simp add: blend_step_alpha)
qed

lemma blend_all_length: "length (blend_all rgba bg) = length rgba"
  by (simp add: blend_all_def Let_def)

lemma blend_all_alpha: "alpha_inv ((length rgba + 3) div 4) (blend_all rgba bg)"
  unfolding blend_all_def Let_def by (rule blend_fold_alpha)

text \<open>
  C5. For every RGBA buffer, width, height and background string, the compositor returns
  (whenever the output buffer can be allocated) a buffer of \<open>width * height * 4\<close> bytes in
  which the alpha byte of every pixel is 255. The same holds for the earlier, unscaled
  compositor, whose output has the length of its input.
\<close>

theorem compositor_output_opaque:
  "(wd * ht * 4 \<le> kMaxLength rt \<longrightarrow> flattenRGBA rt rgbaBuf wd ht bgHex \<noteq> None)
   \<and> (\<forall>out. flattenRGBA rt rgbaBuf wd ht bgHex = Some out \<longrightarrow>
          length out = wd * ht * 4 \<and> (\<forall>k<wd * ht. out ! (4 * k + 3) = 255))
   \<and> (length rgbaBuf \<le> kMaxLength rt \<longrightarrow> flattenRGBA_full rt rgbaBuf bgHex \<noteq> None)
   \<and> (\<forall>out. flattenRGBA_full rt rgbaBuf bgHex = Some out \<longrightarrow>
          length out = length rgbaBuf
          \<and> (\<forall>k. 4 * k + 3 < length rgbaBuf \<longrightarrow> out ! (4 * k + 3) = 255))"
proof (intro conjI allI impI)
  show "flattenRGBA rt rgbaBuf wd ht bgHex \<noteq> None" if "wd * ht * 4 \<le> kMaxLength rt"
    using that by (simp add: flattenRGBA_def)
  show "flattenRGBA_full rt rgbaBuf bgHex \<noteq> None" if "length rgbaBuf \<le> kMaxLength rt"
    using that by (simp add: flattenRGBA_full_def)
next
  fix out
  assume "flattenRGBA rt rgbaBuf wd ht bgHex = Some out"
  then have out: "out = draw_scaled rgbaBuf wd ht bgHex"
    by (simp add: flattenRGBA_def split: if_splits)
  show "length out = wd * ht * 4"
    by (simp add: out draw_scaled_length)
  fix k
  assume "k < wd * ht"
  then show "out ! (4 * k + 3) = 255"
    using draw_scaled_alpha [of wd ht rgbaBuf bgHex]
    by (simp add: out alpha_inv_def draw_scaled_length)
next
  fix out
  assume "flattenRGBA_full rt rgbaBuf bgHex = Some out"
  then have out: "out = blend_all rgbaBuf bgHex"
    by (simp add: flattenRGBA_full_def split: if_splits)
  show "length out = length rgbaBuf"
    by (simp add: out blend_all_length)
  fix k
  assume "4 * k + 3 < length rgbaBuf"
  then show "out ! (4 * k + 3) = 255"
    using blend_all_alpha [of rgbaBuf bgHex]
    by (simp add: out alpha_inv_def blend_all_length)
qed

lemma draw_scaled_2x2:
  "draw_scaled rgba_2x2 2 2 ''#ffffff'' = replicate 16 255"
  by (simp add: rgba_2x2_def draw_scaled_2x2_first alpha_of_0 composite_clear replicate_16)

lemma blend_all_2x2:
  "blend_all rgba_2x2 ''#ffffff''
     = [255, 255, 255, 255,  255, 255, 255, 255,  0, 0, 0, 255,  0, 0, 0, 255]"
  by (simp add: rgba_2x2_def blend_all_2x2_gen alpha_of_0 alpha_of_255 composite_clear
        composite_opaque)

theorem compositor_output_opaque_witness:
  "2 * 2 * 4 \<le> kMaxLength node_stored
   \<and> flattenRGBA node_stored rgba_2x2 2 2 ''#ffffff'' = Some (replicate 16 255)
   \<and> length (replicate 16 255 :: buffer) = 2 * 2 * 4
   \<and> (replicate 16 255 :: buffer) ! (4 * 0 + 3) = 255
   \<and> (replicate 16 255 :: buffer) ! (4 * 1 + 3) = 255
   \<and> (replicate 16 255 :: buffer) ! (4 * 2 + 3) = 255
   \<and> (replicate 16 255 :: buffer) ! (4 * 3 + 3) = 255
   \<and> length rgba_2x2 \<le> kMaxLength node_stored
   \<and> flattenRGBA_full node_stored rgba_2x2 ''#ffffff''
       = Some [255, 255, 255, 255,  255, 255, 255, 255,  0, 0, 0, 255,  0, 0, 0, 255]
   \<and> [255, 255, 255, 255,  255, 255, 255, 255,  0, 0, 0, 255,  0, 0, 0, 255 :: byte]
         ! (4 * 2 + 3) = 255"
proof -
  have a: "2 * 2 * 4 \<le> kMaxLength node_stored" "length rgba_2x2 \<le> kMaxLength node_stored"
    by (simp_all add: node_stored_def rgba_2x2_def)
  have b: "flattenRGBA node_stored rgba_2x2 2 2 ''#ffffff'' = Some (replicate 16 255)"
    using a(1) by (simp add: flattenRGBA_def draw_scaled_2x2)
  have c: "flattenRGBA_full node_stored rgba_2x2 ''#ffffff''
       = Some [255, 255, 255, 255,  255, 255, 255, 255,  0, 0, 0, 255,  0, 0, 0, 255]"
    using a(2) by (simp add: flattenRGBA_full_def blend_all_2x2)
  note t = compositor_output_opaque [of 2 2 node_stored rgba_2x2 "''#ffffff''"]
  from t b have l: "length (replicate 16 255 :: buffer) = 2 * 2 * 4"
    and n: "\<And>k. k < 2 * 2 \<Longrightarrow> (replicate 16 255 :: buffer) ! (4 * k + 3) = 255"
    by simp_all
  from t c have m: "4 * 2 + 3 < length rgba_2x2 \<Longrightarrow>
      [255, 255, 255, 255,  255, 255, 255, 255,  0, 0, 0, 255,  0, 0, 0, 255 :: byte]
        ! (4 * 2 + 3) = 255"
    by blast
  have "4 * 2 + 3 < length rgba_2x2" by (simp add: rgba_2x2_def)
  from a b c l n [of 0] n [of 1] n [of 2] n [of 3] m [OF this]
  show ?thesis by simp
qed

section \<open>The processing step never fails\<close>

lemma parsePNG_None_iff:
  "parsePNG rt buf = None \<longleftrightarrow> (\<exists>e. parsePNG_body rt buf = Inl e)"
  by (cases "parsePNG_body rt buf") (simp_all add: parsePNG_def)

text \<open>
  C1. The processing step returns a pair for every \<open>(bytes, media type)\<close>: an exception of
  the decoder, the compositor or the encoder is a value of the model and none of them
  reaches the result. When the media type is not \<^verbatim>\<open>image/png\<close> or decoding fails (by
  \<^verbatim>\<open>return null\<close> or by a caught exception), the result is the original bytes with the
  original media type; in every case the result is either that pair or re-encoded bytes
  with media type \<^verbatim>\<open>image/png\<close>.
\<close>

theorem handler_process_total:
  "(mime \<noteq> ''image/png'' \<or> parsePNG rt buffer = None
      \<longrightarrow> handler_process rt buffer mime = (buffer, mime))
   \<and> (mime \<noteq> ''image/png'' \<or> (\<exists>e. parsePNG_body rt buffer = Inl e)
      \<longrightarrow> handler_process rt buffer mime = (buffer, mime))
   \<and> (handler_process rt buffer mime = (buffer, mime)
      \<or> (\<exists>parsed flattened pngOut.
            mime = ''image/png'' \<and> parsePNG rt buffer = Some parsed
            \<and> flattenRGBA rt (data parsed) (width parsed) (height parsed)
                  (choose_bgHex (avgLuma (analyzeRGBA (data parsed)))) = Some flattened
            \<and> encodePNG rt flattened (width parsed) (height parsed) = Some pngOut
            \<and> handler_process rt buffer mime = (pngOut, ''image/png'')))"
proof (intro conjI impI)
  assume "mime \<noteq> ''image/png'' \<or> parsePNG rt buffer = None"
  then show "handler_process rt buffer mime = (buffer, mime)"
    by (auto simp add: handler_process_def)
next
  assume "mime \<noteq> ''image/png'' \<or> (\<exists>e. parsePNG_body rt buffer = Inl e)"
  then have "mime \<noteq> ''image/png'' \<or> parsePNG rt buffer = None"
    by (simp only: parsePNG_None_iff)
  then show "handler_process rt buffer mime = (buffer, mime)"
    by (auto simp add: handler_process_def)
next
  show "handler_process rt buffer mime = (buffer, mime)
      \<or> (\<exists>parsed flattened pngOut.
            mime = ''image/png'' \<and> parsePNG rt buffer = Some parsed
            \<and> flattenRGBA rt (data parsed) (width parsed) (height parsed)
                  (choose_bgHex (avgLuma (analyzeRGBA (data parsed)))) = Some flattened
            \<and> encodePNG rt flattened (width parsed) (height parsed) = Some pngOut
            \<and> handler_process rt buffer mime = (pngOut, ''image/png''))"
    by (auto simp add: handler_process_def Let_def split: option.splits)
qed

theorem handler_process_total_witness:
  "handler_process node_stored [255, 216, 255, 224] ''image/jpeg''
     = ([255, 216, 255, 224], ''image/jpeg'')
   \<and> parsePNG_body node_stored png_short_ihdr = Inl Thrown
   \<and> parsePNG node_stored png_short_ihdr = None
   \<and> handler_process node_stored png_short_ihdr ''image/png'' = (png_short_ihdr, ''image/png'')"
proof -
  have a: "''image/jpeg'' \<noteq> ''image/png''" by simp
  have b: "parsePNG_body node_stored png_short_ihdr = Inl Thrown"
    by (simp add: parsePNG_body_def png_short_ihdr_def PNG_SIG_def slice_def read_chunks.simps
        readUInt32BE_def toString_ascii_def char_of_eq_iff reader_init_def)
  then have c: "parsePNG node_stored png_short_ihdr = None"
    by (simp add: parsePNG_def)
  from handler_process_total [of "''image/jpeg''" node_stored "[255, 216, 255, 224]"] a
    handler_process_total [of "''image/png''" node_stored png_short_ihdr] b c
  show ?thesis by simp
qed

section \<open>The analyzer\<close>

lemma count_px_transparent:
  "transparent_px p \<Longrightarrow> count_px s p = s\<lparr>transparentCount := transparentCount s + 1\<rparr>"
  by (simp add: count_px_def)

lemma count_px_opaque:
  "\<not> transparent_px p \<Longrightarrow>
     count_px s p = s\<lparr>lumSum := nan_add (lumSum s) (Some (px_lum p)), lumCount := lumCount s + 1\<rparr>"
  by (simp add: count_px_def)

lemma drop_four:
  assumes "length buf mod 4 = 0" "i mod 4 = 0" "i < length buf"
  shows "i + 3 < length buf"
    and "drop i buf = buf ! i # buf ! (i + 1) # buf ! (i + 2) # buf ! (i + 3) # drop (i + 4) buf"
proof -
  show l: "i + 3 < length buf" using assms by presburger
  then have "i < length buf" "i + 1 < length buf" "i + 2 < length buf" by simp_all
  with l show "drop i buf = buf ! i # buf ! (i + 1) # buf ! (i + 2) # buf ! (i + 3) # drop (i + 4) buf"
    by (simp add: Cons_nth_drop_Suc [symmetric] numeral_eq_Suc)
qed

lemma analyze_loop_pixels:
  "length buf mod 4 = 0 \<Longrightarrow> i mod 4 = 0 \<Longrightarrow>
     analyze_loop buf i s = foldl count_px s (pixels_of (drop i buf))"
proof (induction buf i s rule: analyze_loop.induct)
  case (1 buf i s)
  show ?case
  proof (cases "i < length buf")
    case False
    then show ?thesis by (simp add: analyze_loop.simps)
  next
    case True
    note d = drop_four [OF "1.prems" True]
    have i4: "(i + 4) mod 4 = 0" using "1.prems"(2) by presburger
    have idx: "buf_index buf i = Some (buf ! i)" "buf_index buf (i + 1) = Some (buf ! (i + 1))"
      "buf_index buf (i + 2) = Some (buf ! (i + 2))" "buf_index buf (i + 3) = Some (buf ! (i + 3))"
      using d(1) by (simp_all add: buf_index_def)
    show ?thesis
    proof (cases "is_transparent (buf_index buf (i + 3))")
      case t: True
      then have tp: "transparent_px (buf ! i, buf ! (i + 1), buf ! (i + 2), buf ! (i + 3))"
        by (simp add: idx is_transparent_def transparent_px_def ALPHA_THRESHOLD_def word_less_nat_alt)
      from "1.IH"(1) [OF True refl refl refl refl t "1.prems"(1) i4] t True tp
      show ?thesis
        by (subst analyze_loop.simps) (simp add: d(2) count_px_transparent Let_def)
    next
      case f: False
      then have tp: "\<not> transparent_px (buf ! i, buf ! (i + 1), buf ! (i + 2), buf ! (i + 3))"
        by (simp add: idx is_transparent_def transparent_px_def ALPHA_THRESHOLD_def word_less_nat_alt)
      from "1.IH"(2) [OF True refl refl refl refl f "1.prems"(1) i4] f True tp d(1)
      show ?thesis
        by (subst analyze_loop.simps)
           (simp add: d(2) count_px_opaque Let_def buf_index_def luminance_def px_lum_def)
    qed
  qed
qed

lemma length_pixels_of: "length buf mod 4 = 0 \<Longrightarrow> length (pixels_of buf) = length buf div 4"
  by (induction buf rule: pixels_of.induct) simp_all


lemma foldl_count_px:
  "transparentCount (foldl count_px s ps)
     = transparentCount s + length (filter transparent_px ps)
   \<and> lumCount (foldl count_px s ps)
     = lumCount s + length (filter (\<lambda>p. \<not> transparent_px p) ps)
   \<and> lumSum (foldl count_px s ps)
     = (case lumSum s of
          None \<Rightarrow> None
        | Some t \<Rightarrow> Some (foldl js_add t (map px_lum (filter (\<lambda>p. \<not> transparent_px p) ps))))"
proof (induction ps arbitrary: s)
  case Nil
  show ?case by (simp split: option.splits)
next
  case (Cons p ps)
  show ?case
  proof (cases "transparent_px p")
    case True
    with Cons [of "count_px s p"] show ?thesis
      by (simp add: count_px_transparent split: option.splits)
  next
    case False
    with Cons [of "count_px s p"] show ?thesis
      by (simp add: count_px_opaque nan_add_def split: option.splits)
  qed
qed










lemma analyzeRGBA_counters:
  assumes "length rgbaBuf mod 4 = 0"
  defines "ps \<equiv> pixels_of rgbaBuf"
  defines "lums \<equiv> map px_lum (filter (\<lambda>p. \<not> transparent_px p) ps)"
  defines "s \<equiv> analyze_loop rgbaBuf 0 \<lparr>transparentCount = 0, lumSum = Some 0, lumCount = 0\<rparr>"
  shows "transparentCount s = length (filter transparent_px ps)"
    and "lumCount s = length lums"
    and "lumSum s = Some (foldl js_add 0 lums)"
proof -
  have s: "s = foldl count_px \<lparr>transparentCount = 0, lumSum = Some 0, lumCount = 0\<rparr> ps"
    unfolding s_def using analyze_loop_pixels [OF assms(1), of 0] by (simp add: ps_def)
  note c = foldl_count_px [of "\<lparr>transparentCount = 0, lumSum = Some 0, lumCount = 0\<rparr>" ps]
  show "transparentCount s = length (filter transparent_px ps)"
    and "lumCount s = length lums"
    and "lumSum s = Some (foldl js_add 0 lums)"
    using c by (simp_all add: s lums_def)
qed

lemma analyzeRGBA_ratio:
  assumes "length rgbaBuf mod 4 = 0" "length rgbaBuf div 4 \<le> 2 ^ 53"
  shows "transparentRatio (analyzeRGBA rgbaBuf)
           = js_div (of_nat (length (filter transparent_px (pixels_of rgbaBuf))))
                    (if pixels_of rgbaBuf = [] then 1 else of_nat (length (pixels_of rgbaBuf)))"
proof -
  let ?ps = "pixels_of rgbaBuf"
  have len: "length ?ps = length rgbaBuf div 4"
    using assms(1) by (rule length_pixels_of)
  have "length rgbaBuf = 4 * (length rgbaBuf div 4)" using assms(1) by presburger
  then have l4: "(of_nat (length rgbaBuf) :: rat) = 4 * of_nat (length ?ps)"
    by (simp only: len of_nat_mult of_nat_numeral)
  have "fl (of_nat (length ?ps)) = (of_nat (length ?ps) :: rat)"
    unfolding len using assms(2) by (rule fl_of_nat)
  then have tp: "js_div (of_nat (length rgbaBuf)) 4 = of_nat (length ?ps)"
    by (simp add: js_div_def l4)
  show ?thesis
    by (simp add: analyzeRGBA_def Let_def tp analyzeRGBA_counters(1) [OF assms(1)])
qed



lemma analyzeRGBA_2x2:
  "analyzeRGBA rgba_2x2 = \<lparr>transparentRatio = 1 / 2, avgLuma = Some 0\<rparr>"
proof -
  have s: "analyze_loop rgba_2x2 0 \<lparr>transparentCount = 0, lumSum = Some 0, lumCount = 0\<rparr>
         = \<lparr>transparentCount = 2, lumSum = Some 0, lumCount = 2\<rparr>"
    unfolding rgba_2x2_def by (subst analyze_loop_2x2) simp_all
  have len: "length rgba_2x2 = 16" by (simp add: rgba_2x2_def)
  have f4: "fl 4 = 4" by (rule fl_numeral) simp
  show ?thesis
    by (simp add: analyzeRGBA_def Let_def s len js_div_def f4 fl_half)
qed

lemma analyzeRGBA_clear:
  "analyzeRGBA [9, 9, 9, 0] = \<lparr>transparentRatio = 1, avgLuma = Some 255\<rparr>"
proof -
  have "analyze_loop [9, 9, 9, 0] 0 \<lparr>transparentCount = 0, lumSum = Some 0, lumCount = 0\<rparr>
      = \<lparr>transparentCount = 1, lumSum = Some 0, lumCount = 0\<rparr>"
    by (simp add: analyze_loop.simps buf_index_def is_transparent_def ALPHA_THRESHOLD_def
          Let_def)
  then show ?thesis
    by (simp add: analyzeRGBA_def Let_def js_div_def fl_1)
qed















section \<open>The flatten decision\<close>

lemma convert_row_length:
  "convert_row hdr st bpp y cur xs out = Inr out' \<Longrightarrow> length out' = length out"
proof (induction xs arbitrary: out)
  case Nil
  then show ?case by simp
next
  case (Cons x xs)
  from Cons.prems show ?case
    by (auto simp add: Let_def split: if_splits option.splits dest!: Cons.IH)
qed

lemma decode_rows_length:
  "decode_rows hdr st bpp raw ys pos prevLine out = Inr out' \<Longrightarrow> length out' = length out"
proof (induction ys arbitrary: pos prevLine out)
  case Nil
  then show ?case by simp
next
  case (Cons y ys)
  from Cons.prems show ?case
    by (auto simp add: Let_def split: if_splits option.splits sum.splits
          dest!: Cons.IH convert_row_length)
qed

lemma parsePNG_length:
  assumes "parsePNG rt buf = Some img"
  shows "length (data img) = width img * height img * 4"
    and "width img * height img * 4 \<le> kMaxLength rt"
  using assms
  by (auto simp add: parsePNG_def parsePNG_body_def Let_def
        split: if_splits option.splits sum.splits dest!: decode_rows_length)

lemma ratio_threshold:
  assumes "t \<le> n" "0 < n" "n \<le> 2 ^ 53"
  shows "TRANSPARENT_RATIO_THRESHOLD \<le> js_div (of_nat t) (of_nat n) \<longleftrightarrow> n \<le> 2 * t"
proof -
  have th: "TRANSPARENT_RATIO_THRESHOLD = 1 / 2"
    using fl_half by (simp add: TRANSPARENT_RATIO_THRESHOLD_def js_lit_def)
  let ?q = "of_nat t / of_nat n :: rat"
  have n: "(0::rat) < of_nat n" using assms(2) by simp
  have q0: "0 \<le> ?q" by simp
  show ?thesis
  proof (cases "n \<le> 2 * t")
    case True
    then have "(of_nat n :: rat) \<le> of_nat (2 * t)" by (simp only: of_nat_le_iff)
    then have "1 / 2 \<le> ?q" using n by (simp add: field_simps)
    then have "fl (1 / 2) \<le> fl ?q" by (intro fl_mono) simp_all
    then show ?thesis using True by (simp add: th js_div_def fl_half)
  next
    case False
    then have "2 * t + 1 \<le> n" by simp
    then have "(of_nat (2 * t + 1) :: rat) \<le> of_nat n" by (simp only: of_nat_le_iff)
    then have a: "2 * of_nat t + 1 \<le> (of_nat n :: rat)" by simp
    let ?r = "of_int (2 ^ 53 - 1) / 2 ^ 54 :: rat"
    have "(of_nat n :: rat) \<le> of_nat (2 ^ 53)" using assms(3) by (simp only: of_nat_le_iff)
    then have b: "(of_nat n :: rat) \<le> 2 ^ 53" by simp
    have "?q \<le> 1 / 2 - 1 / (2 * of_nat n)"
      using a n by (simp add: field_simps)
    also have "\<dots> \<le> 1 / 2 - 1 / (2 * 2 ^ 53)"
      using b n by (simp add: field_simps)
    also have "\<dots> = ?r" by simp
    finally have "?q \<le> ?r" .
    with q0 have "fl ?q \<le> fl ?r" by (rule fl_mono)
    also have "fl ?r = ?r" by (rule fl_dyadic) simp_all
    also have "?r < 1 / 2" by simp
    finally show ?thesis using False by (simp add: th js_div_def)
  qed
qed


text \<open>
  C4. For every decoded PNG (on a runtime whose largest buffer is at most \<open>2 ^ 53\<close> bytes)
  the handler takes the flatten branch exactly when the transparent ratio is at least 0.5,
  which is exactly when the image has a pixel and at least half of its pixels have alpha
  below 128. An image with exactly half of its pixels transparent has ratio 0.5 and is
  flattened; with a ratio below 0.5 the original bytes and media type are returned. In the
  flatten branch the result is the re-encoded composite, or the original pair when the
  encoder throws.
\<close>

theorem flatten_threshold_inclusive:
  assumes "parsePNG rt buffer = Some parsed" and "kMaxLength rt \<le> 2 ^ 53"
  defines "ratio \<equiv> transparentRatio (analyzeRGBA (data parsed))"
    and "n \<equiv> length (pixels_of (data parsed))"
    and "t \<equiv> length (filter transparent_px (pixels_of (data parsed)))"
    and "flattened \<equiv>
           (case encodePNG rt
                   (draw_scaled (data parsed) (width parsed) (height parsed)
                      (choose_bgHex (avgLuma (analyzeRGBA (data parsed)))))
                   (width parsed) (height parsed) of
              None \<Rightarrow> (buffer, ''image/png'')
            | Some pngOut \<Rightarrow> (pngOut, ''image/png''))"
  shows "TRANSPARENT_RATIO_THRESHOLD = 1 / 2
       \<and> n = width parsed * height parsed
       \<and> (TRANSPARENT_RATIO_THRESHOLD \<le> ratio \<longleftrightarrow> 0 < n \<and> n \<le> 2 * t)
       \<and> (TRANSPARENT_RATIO_THRESHOLD \<le> ratio
            \<longrightarrow> handler_process rt buffer ''image/png'' = flattened)
       \<and> (ratio < TRANSPARENT_RATIO_THRESHOLD
            \<longrightarrow> handler_process rt buffer ''image/png'' = (buffer, ''image/png''))
       \<and> (0 < n \<and> 2 * t = n
            \<longrightarrow> ratio = 1 / 2 \<and> handler_process rt buffer ''image/png'' = flattened)"
proof -
  note len = parsePNG_length [OF assms(1)]
  have m4: "length (data parsed) mod 4 = 0" by (simp add: len(1))
  have "length (data parsed) \<le> kMaxLength rt" using len by simp
  then have "length (data parsed) \<le> 2 ^ 53" using assms(2) by (rule order_trans)
  moreover have "length (data parsed) div 4 \<le> length (data parsed)" by simp
  ultimately have b: "length (data parsed) div 4 \<le> 2 ^ 53" by (rule order_trans [rotated])
  have n: "n = length (data parsed) div 4"
    unfolding n_def using m4 by (rule length_pixels_of)
  then have nwh: "n = width parsed * height parsed" by (simp add: len(1))
  have r: "ratio = js_div (of_nat t) (if pixels_of (data parsed) = [] then 1 else of_nat n)"
    unfolding ratio_def t_def n_def using m4 b by (rule analyzeRGBA_ratio)
  have th: "TRANSPARENT_RATIO_THRESHOLD = 1 / 2"
    using fl_half by (simp add: TRANSPARENT_RATIO_THRESHOLD_def js_lit_def)
  have tn: "t \<le> n" by (simp add: t_def n_def)
  have dec: "TRANSPARENT_RATIO_THRESHOLD \<le> ratio \<longleftrightarrow> 0 < n \<and> n \<le> 2 * t"
  proof (cases "n = 0")
    case True
    then have "pixels_of (data parsed) = []" by (simp add: n_def)
    then have "ratio = 0" using r by (simp add: t_def js_div_def)
    then show ?thesis using True by (simp add: th)
  next
    case False
    then have "pixels_of (data parsed) \<noteq> []" by (auto simp add: n_def)
    then have "ratio = js_div (of_nat t) (of_nat n)" using r by simp
    moreover have "0 < n" "n \<le> 2 ^ 53" using False b n by simp_all
    ultimately show ?thesis using ratio_threshold [OF tn] by simp
  qed
  have fl: "flattenRGBA rt (data parsed) (width parsed) (height parsed) bg
              = Some (draw_scaled (data parsed) (width parsed) (height parsed) bg)" for bg
    using len(2) by (simp add: flattenRGBA_def)
  have yes: "handler_process rt buffer ''image/png'' = flattened"
    if "TRANSPARENT_RATIO_THRESHOLD \<le> ratio"
    using that assms(1)
    by (simp add: handler_process_def Let_def fl flattened_def ratio_def split: option.splits)
  have no: "handler_process rt buffer ''image/png'' = (buffer, ''image/png'')"
    if "ratio < TRANSPARENT_RATIO_THRESHOLD"
    using that assms(1)
    by (simp add: handler_process_def Let_def ratio_def)
  have half: "ratio = 1 / 2 \<and> handler_process rt buffer ''image/png'' = flattened"
    if h: "0 < n \<and> 2 * t = n"
  proof -
    from h have "pixels_of (data parsed) \<noteq> []" by (auto simp add: n_def)
    then have "ratio = js_div (of_nat t) (of_nat n)" using r by simp
    also have "(of_nat n :: rat) = 2 * of_nat t" using h by (auto simp only: of_nat_mult of_nat_numeral)
    also have "js_div (of_nat t) (2 * of_nat t) = fl (1 / 2)"
      using h by (simp add: js_div_def)
    finally have "ratio = 1 / 2" by (simp only: fl_half)
    moreover have "TRANSPARENT_RATIO_THRESHOLD \<le> ratio" using dec h by simp
    ultimately show ?thesis using yes by simp
  qed
  from th nwh dec yes no half show ?thesis by blast
qed

lemmas decode_eval =
  parsePNG_def parsePNG_body_def PNG_SIG_def read_chunks.simps readUInt32BE_def
  toString_ascii_def char_of_eq_iff slice_def reader_init_def make_ihdr_def buf_index_def
  node_stored_def inflate_stored_def inflate_blocks.simps Let_def adler32_def
  channels_of_def upt_rec apply_filter_def replicate_16 replicate_4

lemma parsePNG_2x2:
  "parsePNG node_stored png_2x2 = Some \<lparr>width = 2, height = 2, data = rgba_2x2\<rparr>"
  by (simp add: decode_eval png_2x2_def rgba_2x2_def)

lemma parsePNG_1x1_white:
  "parsePNG node_stored png_1x1_white
     = Some \<lparr>width = 1, height = 1, data = [255, 255, 255, 255]\<rparr>"
  by (simp add: decode_eval png_1x1_white_def)

lemma ratio_white: "transparentRatio (analyzeRGBA [255, 255, 255, 255]) = 0"
proof -
  have "transparentCount
          (analyze_loop [255, 255, 255, 255] 0
             \<lparr>transparentCount = 0, lumSum = Some 0, lumCount = 0\<rparr>) = 0"
    by (simp add: analyze_loop.simps buf_index_def is_transparent_def ALPHA_THRESHOLD_def
          Let_def)
  then show ?thesis
    by (simp add: analyzeRGBA_def Let_def js_div_def)
qed

theorem flatten_threshold_inclusive_witness:
  "parsePNG node_stored png_2x2 = Some \<lparr>width = 2, height = 2, data = rgba_2x2\<rparr>
   \<and> kMaxLength node_stored \<le> 2 ^ 53
   \<and> length (pixels_of rgba_2x2) = 4
   \<and> length (filter transparent_px (pixels_of rgba_2x2)) = 2
   \<and> transparentRatio (analyzeRGBA rgba_2x2) = 1 / 2
   \<and> handler_process node_stored png_2x2 ''image/png''
       = (case encodePNG node_stored (draw_scaled rgba_2x2 2 2 ''#ffffff'') 2 2 of
            None \<Rightarrow> (png_2x2, ''image/png'')
          | Some pngOut \<Rightarrow> (pngOut, ''image/png''))
   \<and> parsePNG node_stored png_1x1_white
       = Some \<lparr>width = 1, height = 1, data = [255, 255, 255, 255]\<rparr>
   \<and> transparentRatio (analyzeRGBA [255, 255, 255, 255]) < TRANSPARENT_RATIO_THRESHOLD
   \<and> handler_process node_stored png_1x1_white ''image/png'' = (png_1x1_white, ''image/png'')"
proof -
  have k: "kMaxLength node_stored \<le> 2 ^ 53" by (simp add: node_stored_def)
  have p: "length (pixels_of rgba_2x2) = 4"
    "length (filter transparent_px (pixels_of rgba_2x2)) = 2"
    by (simp_all add: rgba_2x2_def transparent_px_def)
  have bg: "choose_bgHex (avgLuma (analyzeRGBA rgba_2x2)) = ''#ffffff''"
    by (simp add: analyzeRGBA_2x2 choose_bgHex_def LUMINANCE_THRESHOLD_def)
  have w: "transparentRatio (analyzeRGBA [255, 255, 255, 255]) < TRANSPARENT_RATIO_THRESHOLD"
    using flatten_threshold_inclusive [OF parsePNG_1x1_white k]
    by (simp add: ratio_white)
  from flatten_threshold_inclusive [OF parsePNG_2x2 k]
    flatten_threshold_inclusive [OF parsePNG_1x1_white k] w k p bg
  show ?thesis by (simp add: parsePNG_2x2 parsePNG_1x1_white)
qed

section \<open>The 2 by 2 scenario\<close>

lemma composite_black:
  "a = 0 \<or> a = 255 \<Longrightarrow> to_uint8 (composite (Some 0) (alpha_of (Some a)) (Some 255)) = 255 - a"
  by (auto simp add: alpha_of_0 alpha_of_255 composite_clear composite_opaque)

text \<open>
  C3 fails on the handler's compositor. The decoded image \<open>rgba_2x2\<close> has its two opaque
  black pixels in the lower row. The analyzer gives ratio 0.5 and average luminance 0, the
  background is \<^verbatim>\<open>#ffffff\<close>, and the compositor, which draws the image at 80 percent,
  draws the single destination pixel (0, 0) from source pixel (0, 0) and leaves the rest
  background: the output is white everywhere, so the opaque black pixels are not black in
  the output.
\<close>

theorem scenario_2x2_counterexample:
  "parsePNG node_stored png_2x2 = Some \<lparr>width = 2, height = 2, data = rgba_2x2\<rparr>
   \<and> analyzeRGBA rgba_2x2 = \<lparr>transparentRatio = 1 / 2, avgLuma = Some 0\<rparr>
   \<and> slice rgba_2x2 8 12 = [0, 0, 0, 255]
   \<and> slice rgba_2x2 12 16 = [0, 0, 0, 255]
   \<and> flattenRGBA node_stored rgba_2x2 2 2 (choose_bgHex (avgLuma (analyzeRGBA rgba_2x2)))
       = Some [255, 255, 255, 255,  255, 255, 255, 255,  255, 255, 255, 255,  255, 255, 255, 255]
   \<and> slice [255, 255, 255, 255,  255, 255, 255, 255,  255, 255, 255, 255,  255, 255, 255, 255 :: byte]
         8 12 \<noteq> [0, 0, 0, 255]
   \<and> handler_process node_stored png_2x2 ''image/png''
       = (case encodePNG node_stored
                 [255, 255, 255, 255,  255, 255, 255, 255,  255, 255, 255, 255,  255, 255, 255, 255]
                 2 2 of
            None \<Rightarrow> (png_2x2, ''image/png'')
          | Some pngOut \<Rightarrow> (pngOut, ''image/png''))"
proof -
  have a: "analyzeRGBA rgba_2x2 = \<lparr>transparentRatio = 1 / 2, avgLuma = Some 0\<rparr>"
    by (rule analyzeRGBA_2x2)
  have b: "choose_bgHex (avgLuma (analyzeRGBA rgba_2x2)) = ''#ffffff''"
    by (simp add: a choose_bgHex_def LUMINANCE_THRESHOLD_def)
  have c: "flattenRGBA node_stored rgba_2x2 2 2 ''#ffffff''
       = Some [255, 255, 255, 255,  255, 255, 255, 255,  255, 255, 255, 255,  255, 255, 255, 255]"
    by (simp add: flattenRGBA_def node_stored_def rgba_2x2_def draw_scaled_2x2_first alpha_of_0
          composite_clear)
  have d: "slice rgba_2x2 8 12 = [0, 0, 0, 255]" "slice rgba_2x2 12 16 = [0, 0, 0, 255]"
    "slice [255, 255, 255, 255,  255, 255, 255, 255,  255, 255, 255, 255,  255, 255, 255, 255 :: byte]
         8 12 \<noteq> [0, 0, 0, 255]"
    by (simp_all add: rgba_2x2_def slice_def)
  have th: "TRANSPARENT_RATIO_THRESHOLD = 1 / 2"
    using fl_half by (simp add: TRANSPARENT_RATIO_THRESHOLD_def js_lit_def)
  have e: "handler_process node_stored png_2x2 ''image/png''
       = (case encodePNG node_stored
                 [255, 255, 255, 255,  255, 255, 255, 255,  255, 255, 255, 255,  255, 255, 255, 255]
                 2 2 of
            None \<Rightarrow> (png_2x2, ''image/png'')
          | Some pngOut \<Rightarrow> (pngOut, ''image/png''))"
    using b c by (simp add: handler_process_def parsePNG_2x2 a th)
  from parsePNG_2x2 a c [folded b] d e show ?thesis by (intro conjI)
qed

text \<open>
  C3, amended. For a PNG stream that decodes to a 2 by 2 image of black pixels, two fully
  transparent and two opaque, in any arrangement: the analyzer yields ratio 0.5 and average
  luminance 0, the background chosen is the light \<^verbatim>\<open>#ffffff\<close>, and the handler takes the
  flatten branch: its result is the encoding of the flattened pixels as \<^verbatim>\<open>image/png\<close>
  (the original pair if the encoder throws). The flattened pixels are fully opaque. With the
  handler's compositor (80 percent, centred) only output pixel (0, 0) comes from the image
  (black when source pixel (0, 0) is opaque, white when it is transparent) and the other
  three output pixels are the background. With the earlier unscaled compositor every opaque
  black pixel stays black and every transparent pixel becomes the background.
\<close>

theorem scenario_2x2_scaled:
  assumes "a0 = 0 \<or> a0 = 255" and "a1 = 0 \<or> a1 = 255" and "a2 = 0 \<or> a2 = 255"
    and "a3 = 0 \<or> a3 = 255"
    and "length (filter (\<lambda>a. a = 255) [a0, a1, a2, a3]) = 2"
    and "16 \<le> kMaxLength rt"
    and "parsePNG rt buf
           = Some \<lparr>width = 2, height = 2,
                   data = [0, 0, 0, a0,  0, 0, 0, a1,  0, 0, 0, a2,  0, 0, 0, a3]\<rparr>"
  defines "px \<equiv> [0, 0, 0, a0,  0, 0, 0, a1,  0, 0, 0, a2,  0, 0, 0, a3]"
  shows "analyzeRGBA px = \<lparr>transparentRatio = 1 / 2, avgLuma = Some 0\<rparr>
       \<and> TRANSPARENT_RATIO_THRESHOLD \<le> transparentRatio (analyzeRGBA px)
       \<and> choose_bgHex (avgLuma (analyzeRGBA px)) = ''#ffffff''
       \<and> handler_process rt buf ''image/png''
           = (case encodePNG rt [255 - a0, 255 - a0, 255 - a0, 255,  255, 255, 255, 255,
                                 255, 255, 255, 255,  255, 255, 255, 255] 2 2 of
                None \<Rightarrow> (buf, ''image/png'')
              | Some pngOut \<Rightarrow> (pngOut, ''image/png''))
       \<and> flattenRGBA rt px 2 2 ''#ffffff''
           = Some [255 - a0, 255 - a0, 255 - a0, 255,  255, 255, 255, 255,
                   255, 255, 255, 255,  255, 255, 255, 255]
       \<and> flattenRGBA_full rt px ''#ffffff''
           = Some [255 - a0, 255 - a0, 255 - a0, 255,  255 - a1, 255 - a1, 255 - a1, 255,
                   255 - a2, 255 - a2, 255 - a2, 255,  255 - a3, 255 - a3, 255 - a3, 255]"
proof -
  have z: "length (filter (\<lambda>a. a = 0) [a0, a1, a2, a3]) = 2"
    using assms(1-5) by (elim disjE) simp_all
  have s: "analyze_loop px 0 \<lparr>transparentCount = 0, lumSum = Some 0, lumCount = 0\<rparr>
         = \<lparr>transparentCount = 2, lumSum = Some 0, lumCount = 2\<rparr>"
    unfolding px_def analyze_loop_2x2 [OF assms(1-4)] z assms(5) ..
  have f4: "fl 4 = 4" by (rule fl_numeral) simp
  have len: "length px = 16" by (simp add: px_def)
  have an: "analyzeRGBA px = \<lparr>transparentRatio = 1 / 2, avgLuma = Some 0\<rparr>"
    by (simp add: analyzeRGBA_def Let_def s len js_div_def f4 fl_half)
  have th: "TRANSPARENT_RATIO_THRESHOLD = 1 / 2"
    using fl_half by (simp add: TRANSPARENT_RATIO_THRESHOLD_def js_lit_def)
  have bg: "choose_bgHex (avgLuma (analyzeRGBA px)) = ''#ffffff''"
    by (simp add: an choose_bgHex_def LUMINANCE_THRESHOLD_def)
  have f: "flattenRGBA rt px 2 2 ''#ffffff''
           = Some [255 - a0, 255 - a0, 255 - a0, 255,  255, 255, 255, 255,
                   255, 255, 255, 255,  255, 255, 255, 255]"
    using assms(6)
    by (simp add: flattenRGBA_def px_def draw_scaled_2x2_first composite_black [OF assms(1)])
  have g: "flattenRGBA_full rt px ''#ffffff''
           = Some [255 - a0, 255 - a0, 255 - a0, 255,  255 - a1, 255 - a1, 255 - a1, 255,
                   255 - a2, 255 - a2, 255 - a2, 255,  255 - a3, 255 - a3, 255 - a3, 255]"
    using assms(6)
    by (simp add: flattenRGBA_full_def px_def blend_all_2x2_gen
          composite_black [OF assms(1)] composite_black [OF assms(2)]
          composite_black [OF assms(3)] composite_black [OF assms(4)])
  have hp: "handler_process rt buf ''image/png''
           = (case encodePNG rt [255 - a0, 255 - a0, 255 - a0, 255,  255, 255, 255, 255,
                                 255, 255, 255, 255,  255, 255, 255, 255] 2 2 of
                None \<Rightarrow> (buf, ''image/png'')
              | Some pngOut \<Rightarrow> (pngOut, ''image/png''))"
    using an th bg f
    by (simp add: handler_process_def assms(7) [folded px_def])
  from an th bg f g hp show ?thesis by simp
qed

theorem scenario_2x2_scaled_witness:
  "length (filter (\<lambda>a. a = 255) [0, 0, 255, 255 :: byte]) = 2
   \<and> 16 \<le> kMaxLength node_stored
   \<and> parsePNG node_stored png_2x2 = Some \<lparr>width = 2, height = 2, data = rgba_2x2\<rparr>
   \<and> analyzeRGBA rgba_2x2 = \<lparr>transparentRatio = 1 / 2, avgLuma = Some 0\<rparr>
   \<and> handler_process node_stored png_2x2 ''image/png''
       = (case encodePNG node_stored
                 [255, 255, 255, 255,  255, 255, 255, 255,  255, 255, 255, 255,  255, 255, 255, 255]
                 2 2 of
            None \<Rightarrow> (png_2x2, ''image/png'')
          | Some pngOut \<Rightarrow> (pngOut, ''image/png''))
   \<and> flattenRGBA node_stored rgba_2x2 2 2 ''#ffffff''
       = Some [255, 255, 255, 255,  255, 255, 255, 255,  255, 255, 255, 255,  255, 255, 255, 255]
   \<and> flattenRGBA_full node_stored rgba_2x2 ''#ffffff''
       = Some [255, 255, 255, 255,  255, 255, 255, 255,  0, 0, 0, 255,  0, 0, 0, 255]"
proof -
  have k: "16 \<le> kMaxLength node_stored" by (simp add: node_stored_def)
  have p: "parsePNG node_stored png_2x2
       = Some \<lparr>width = 2, height = 2,
               data = [0, 0, 0, 0,  0, 0, 0, 0,  0, 0, 0, 255,  0, 0, 0, 255]\<rparr>"
    using parsePNG_2x2 by (simp add: rgba_2x2_def)
  from scenario_2x2_scaled [of 0 0 255 255 node_stored png_2x2, OF _ _ _ _ _ k p] k p
  show ?thesis by (simp add: rgba_2x2_def)
qed

section \<open>The chunk loop does not depend on the CRC fields\<close>

lemma slice_cong:
  assumes "length ys = length xs" "b \<le> length xs"
    and "\<And>p. a \<le> p \<Longrightarrow> p < b \<Longrightarrow> ys ! p = xs ! p"
  shows "slice ys a b = slice xs a b"
proof (rule nth_equalityI)
  show "length (slice ys a b) = length (slice xs a b)"
    using assms(1) by (simp add: slice_def)
next
  fix i
  assume "i < length (slice ys a b)"
  then have i: "i < b - a" "a + i < length xs" using assms(1,2) by (simp_all add: slice_def)
  then have "ys ! (a + i) = xs ! (a + i)" by (intro assms(3)) simp_all
  then show "slice ys a b ! i = slice xs a b ! i"
    using i assms(1) by (simp add: slice_def)
qed

lemma readUInt32BE_cong:
  assumes "length ys = length xs"
    and "\<And>p. a \<le> p \<Longrightarrow> p < a + 4 \<Longrightarrow> p < length xs \<Longrightarrow> ys ! p = xs ! p"
  shows "readUInt32BE ys a = readUInt32BE xs a"
proof (cases "a + 4 \<le> length xs")
  case True
  then have "ys ! a = xs ! a" "ys ! (a + 1) = xs ! (a + 1)" "ys ! (a + 2) = xs ! (a + 2)"
    "ys ! (a + 3) = xs ! (a + 3)"
    by (simp_all add: assms(2))
  then show ?thesis by (simp add: readUInt32BE_def assms(1))
next
  case False
  then show ?thesis by (simp add: readUInt32BE_def assms(1))
qed

lemma chunk_walk_step:
  assumes "offset + 8 \<le> length buf" "readUInt32BE buf offset = Some len"
    "offset + 8 + len + 4 \<le> length buf"
  shows "chunk_walk buf offset
           = (toString_ascii buf (offset + 4) (offset + 8), offset + 8, offset + 8 + len)
             # (if toString_ascii buf (offset + 4) (offset + 8) = ''IEND'' then []
                else chunk_walk buf (offset + 8 + len + 4))"
  using assms by (subst chunk_walk.simps) (simp add: Let_def)

lemma chunk_walk_stop:
  assumes "\<not> (offset + 8 \<le> length buf
            \<and> (\<exists>len. readUInt32BE buf offset = Some len \<and> offset + 8 + len + 4 \<le> length buf))"
  shows "chunk_walk buf offset = []"
  using assms by (subst chunk_walk.simps) (auto simp add: Let_def split: option.splits)

lemma chunk_walk_bounds:
  "(t, s, e) \<in> set (chunk_walk buf offset) \<Longrightarrow> offset + 8 \<le> s \<and> s \<le> e"
proof (induction "length buf - offset" arbitrary: offset rule: less_induct)
  case less
  show ?case
  proof (cases "offset + 8 \<le> length buf
            \<and> (\<exists>len. readUInt32BE buf offset = Some len \<and> offset + 8 + len + 4 \<le> length buf)")
    case False
    with less.prems show ?thesis by (simp add: chunk_walk_stop)
  next
    case True
    then obtain len where c: "offset + 8 \<le> length buf" "readUInt32BE buf offset = Some len"
      "offset + 8 + len + 4 \<le> length buf" by blast
    note st = chunk_walk_step [OF c]
    from less.prems consider "s = offset + 8 \<and> e = offset + 8 + len"
      | "(t, s, e) \<in> set (chunk_walk buf (offset + 8 + len + 4))"
      unfolding st by (auto split: if_splits)
    then show ?thesis
    proof cases
      case 1
      then show ?thesis by simp
    next
      case 2
      have "length buf - (offset + 8 + len + 4) < length buf - offset" using c by simp
      from less.hyps [OF this 2] show ?thesis by simp
    qed
  qed
qed

lemma crc_offsets_from_ge:
  "p \<in> set (crc_offsets_from buf offset) \<Longrightarrow> offset + 8 \<le> p"
  by (auto simp add: crc_offsets_from_def dest!: chunk_walk_bounds)

lemma read_chunks_step:
  assumes "offset + 8 \<le> length buf" "readUInt32BE buf offset = Some len"
    "offset + 8 + len + 4 \<le> length buf"
  shows "read_chunks buf offset st =
    (let type = toString_ascii buf (offset + 4) (offset + 8);
         dat = slice buf (offset + 8) (offset + 8 + len);
         offset' = offset + 8 + len + 4
     in if type = ''IHDR'' then
          (case readUInt32BE dat 0 of
             None \<Rightarrow> Inl Thrown
           | Some w \<Rightarrow>
               (case readUInt32BE dat 4 of
                  None \<Rightarrow> Inl Thrown
                | Some h \<Rightarrow> read_chunks buf offset' (st\<lparr>ihdr := Some (make_ihdr w h dat)\<rparr>)))
        else if type = ''PLTE'' then read_chunks buf offset' (st\<lparr>plte := Some dat\<rparr>)
        else if type = ''tRNS'' then read_chunks buf offset' (st\<lparr>trns := Some dat\<rparr>)
        else if type = ''IDAT'' then
          read_chunks buf offset' (st\<lparr>idatParts := idatParts st @ [dat]\<rparr>)
        else if type = ''IEND'' then Inr (st\<lparr>ended := True\<rparr>)
        else read_chunks buf offset' st)"
  using assms by (subst read_chunks.simps) (simp add: Let_def)

lemma readUInt32BE_None_iff: "readUInt32BE buf offset = None \<longleftrightarrow> \<not> offset + 4 \<le> length buf"
  by (simp add: readUInt32BE_def)

lemma read_chunks_stop:
  assumes "\<not> (offset + 8 \<le> length buf
            \<and> (\<exists>len. readUInt32BE buf offset = Some len \<and> offset + 8 + len + 4 \<le> length buf))"
  shows "read_chunks buf offset st = Inr st"
  using assms
  by (subst read_chunks.simps)
     (auto simp add: Let_def readUInt32BE_None_iff split: option.splits)

lemma read_chunks_crc:
  assumes "length buf' = length buf"
    and "\<And>p. offset \<le> p \<Longrightarrow> p < length buf \<Longrightarrow> p \<notin> set (crc_offsets_from buf offset)
           \<Longrightarrow> buf' ! p = buf ! p"
  shows "read_chunks buf' offset st = read_chunks buf offset st"
  using assms(2)
proof (induction "length buf - offset" arbitrary: offset st rule: less_induct)
  case less
  note eq = less.prems
  have lenread: "readUInt32BE buf' offset = readUInt32BE buf offset"
  proof (rule readUInt32BE_cong [OF assms(1)])
    fix p assume "offset \<le> p" "p < offset + 4" "p < length buf"
    moreover from this have "p \<notin> set (crc_offsets_from buf offset)"
      using crc_offsets_from_ge [of p buf offset] by auto
    ultimately show "buf' ! p = buf ! p" by (intro eq)
  qed
  show ?case
  proof (cases "offset + 8 \<le> length buf
            \<and> (\<exists>len. readUInt32BE buf offset = Some len \<and> offset + 8 + len + 4 \<le> length buf)")
    case False
    then have "\<not> (offset + 8 \<le> length buf'
            \<and> (\<exists>len. readUInt32BE buf' offset = Some len \<and> offset + 8 + len + 4 \<le> length buf'))"
      by (simp add: lenread assms(1))
    then have "read_chunks buf' offset st = Inr st" by (rule read_chunks_stop)
    moreover have "read_chunks buf offset st = Inr st" using False by (rule read_chunks_stop)
    ultimately show ?thesis by simp
  next
    case True
    then obtain len where c: "offset + 8 \<le> length buf" "readUInt32BE buf offset = Some len"
      "offset + 8 + len + 4 \<le> length buf" by blast
    have c': "offset + 8 \<le> length buf'" "readUInt32BE buf' offset = Some len"
      "offset + 8 + len + 4 \<le> length buf'"
      using c by (simp_all add: lenread assms(1))
    let ?type = "toString_ascii buf (offset + 4) (offset + 8)"
    note cw = chunk_walk_step [OF c]
    have outside: "buf' ! p = buf ! p" if "offset \<le> p" "p < offset + 8 + len" for p
    proof -
      have "p \<notin> set (crc_offsets_from buf offset)"
      proof
        assume "p \<in> set (crc_offsets_from buf offset)"
        then obtain t s e where m: "(t, s, e) \<in> set (chunk_walk buf offset)" "e \<le> p"
          by (auto simp add: crc_offsets_from_def)
        from m(1) have "offset + 8 + len \<le> e"
          unfolding cw using chunk_walk_bounds [of t s e buf "offset + 8 + len + 4"]
          by (auto split: if_splits)
        with m(2) that(2) show False by simp
      qed
      with that c show ?thesis by (intro eq) simp_all
    qed
    have ty: "toString_ascii buf' (offset + 4) (offset + 8) = ?type"
      unfolding toString_ascii_def
      using c by (subst slice_cong [OF assms(1)]) (auto intro: outside)
    have dat: "slice buf' (offset + 8) (offset + 8 + len) = slice buf (offset + 8) (offset + 8 + len)"
      using c by (intro slice_cong [OF assms(1)]) (auto intro: outside)
    have rec: "read_chunks buf' (offset + 8 + len + 4) st' = read_chunks buf (offset + 8 + len + 4) st'"
      if "?type \<noteq> ''IEND''" for st'
    proof (rule less.hyps)
      show "length buf - (offset + 8 + len + 4) < length buf - offset" using c by simp
    next
      fix p
      assume p: "offset + 8 + len + 4 \<le> p" "p < length buf"
        "p \<notin> set (crc_offsets_from buf (offset + 8 + len + 4))"
      from p(1,3) that have "p \<notin> set (crc_offsets_from buf offset)"
        by (auto simp add: crc_offsets_from_def cw)
      with p show "buf' ! p = buf ! p" by (intro eq) simp_all
    qed
    show ?thesis
    proof (cases "?type = ''IEND''")
      case True
      then show ?thesis
        unfolding read_chunks_step [OF c] read_chunks_step [OF c'] ty dat Let_def
        by simp
    next
      case False
      show ?thesis
        unfolding read_chunks_step [OF c] read_chunks_step [OF c'] ty dat Let_def
        by (simp only: rec [OF False])
    qed
  qed
qed

text \<open>
  C10. Two streams of the same length that differ only inside the 4-byte CRC fields of the
  chunks (as framed by the chunk loop, up to and including the first IEND) are decoded to
  the same result: both fail, or both give the same width, height and RGBA buffer.
\<close>

theorem crc_noninterference:
  assumes "length buf' = length buf"
    and "\<forall>p<length buf. p \<notin> set (crc_offsets buf) \<longrightarrow> buf' ! p = buf ! p"
  shows "parsePNG rt buf' = parsePNG rt buf"
proof -
  have out: "buf' ! p = buf ! p" if "p < length buf" "p \<notin> set (crc_offsets buf)" for p
    using assms(2) that by blast
  have rc: "read_chunks buf' 8 st = read_chunks buf 8 st" for st
    by (rule read_chunks_crc [OF assms(1)]) (simp add: out crc_offsets_def)
  have sig: "slice buf' 0 8 = slice buf 0 8" if "8 \<le> length buf"
  proof (rule slice_cong [OF assms(1) that])
    fix p :: nat assume "p < 8"
    then have "p \<notin> set (crc_offsets buf)"
      using crc_offsets_from_ge [of p buf 8] by (auto simp add: crc_offsets_def)
    with \<open>p < 8\<close> that show "buf' ! p = buf ! p" by (intro out) simp_all
  qed
  have "parsePNG_body rt buf' = parsePNG_body rt buf"
  proof (cases "8 \<le> length buf")
    case True
    then show ?thesis
      unfolding parsePNG_body_def by (simp only: rc sig [OF True] assms(1))
  next
    case False
    then show ?thesis by (simp add: parsePNG_body_def assms(1))
  qed
  then show ?thesis by (simp add: parsePNG_def)
qed


lemma crc_offsets_1x1:
  "crc_offsets png_1x1_white = [29, 30, 31, 32,  57, 58, 59, 60,  69, 70, 71, 72]"
  by (simp add: crc_offsets_def crc_offsets_from_def png_1x1_white_def chunk_walk.simps
        readUInt32BE_def toString_ascii_def char_of_eq_iff slice_def Let_def upt_rec)

theorem crc_noninterference_witness:
  "length png_1x1_white_crc0 = length png_1x1_white
   \<and> crc_offsets png_1x1_white = [29, 30, 31, 32,  57, 58, 59, 60,  69, 70, 71, 72]
   \<and> png_1x1_white_crc0 \<noteq> png_1x1_white
   \<and> parsePNG node_stored png_1x1_white_crc0 = parsePNG node_stored png_1x1_white
   \<and> parsePNG node_stored png_1x1_white
       = Some \<lparr>width = 1, height = 1, data = [255, 255, 255, 255]\<rparr>"
proof -
  have l: "length png_1x1_white_crc0 = length png_1x1_white"
    by (simp add: png_1x1_white_crc0_def png_1x1_white_def)
  have n: "length png_1x1_white = 73" by (simp add: png_1x1_white_def)
  have "list_all (\<lambda>p. p \<in> set (crc_offsets png_1x1_white)
                      \<or> png_1x1_white_crc0 ! p = png_1x1_white ! p) [0..<73]"
    unfolding crc_offsets_1x1
    by (simp add: upt_rec png_1x1_white_crc0_def png_1x1_white_def)
  then have a: "\<forall>p<length png_1x1_white. p \<notin> set (crc_offsets png_1x1_white)
        \<longrightarrow> png_1x1_white_crc0 ! p = png_1x1_white ! p"
    unfolding n by (auto simp add: list_all_iff)
  have d: "png_1x1_white_crc0 \<noteq> png_1x1_white"
    by (simp add: png_1x1_white_crc0_def png_1x1_white_def)
  from crc_noninterference [OF l a, of node_stored] l d crc_offsets_1x1 parsePNG_1x1_white
  show ?thesis by simp
qed

section \<open>The header chunk\<close>

lemmas walk_eval =
  chunk_types_def chunk_walk.simps readUInt32BE_def toString_ascii_def char_of_eq_iff
  slice_def Let_def

text \<open>What the chunk loop has recorded at its end was found in the chunks it walked:
  a header only from an IHDR chunk, the end flag only from a final IEND chunk.\<close>

lemma read_chunks_reaches:
  "read_chunks buf offset st = Inr st' \<Longrightarrow>
     (ihdr st' \<noteq> None \<longrightarrow> ihdr st \<noteq> None \<or> ''IHDR'' \<in> fst ` set (chunk_walk buf offset))
     \<and> (ended st' \<longrightarrow> ended st
            \<or> (chunk_walk buf offset \<noteq> [] \<and> fst (last (chunk_walk buf offset)) = ''IEND''))"
proof (induction "length buf - offset" arbitrary: offset st rule: less_induct)
  case less
  show ?case
  proof (cases "offset + 8 \<le> length buf
            \<and> (\<exists>len. readUInt32BE buf offset = Some len \<and> offset + 8 + len + 4 \<le> length buf)")
    case False
    with less.prems show ?thesis by (simp add: read_chunks_stop)
  next
    case True
    then obtain len where c: "offset + 8 \<le> length buf" "readUInt32BE buf offset = Some len"
      "offset + 8 + len + 4 \<le> length buf" by blast
    let ?type = "toString_ascii buf (offset + 4) (offset + 8)"
    let ?dat = "slice buf (offset + 8) (offset + 8 + len)"
    let ?next = "offset + 8 + len + 4"
    note cw = chunk_walk_step [OF c]
    have dec: "length buf - ?next < length buf - offset" using c by simp
    note ih = less.hyps [OF dec]
    note rs = less.prems [unfolded read_chunks_step [OF c] Let_def]
    consider (ihdr) "?type = ''IHDR''" | (iend) "?type = ''IEND''"
      | (plte) "?type = ''PLTE''" | (trns) "?type = ''tRNS''" | (idat) "?type = ''IDAT''"
      | (other) "?type \<noteq> ''IHDR''" "?type \<noteq> ''IEND''" "?type \<noteq> ''PLTE''"
          "?type \<noteq> ''tRNS''" "?type \<noteq> ''IDAT''"
      by blast
    then show ?thesis
    proof cases
      case ihdr
      with rs obtain w h where
        "read_chunks buf ?next (st\<lparr>ihdr := Some (make_ihdr w h ?dat)\<rparr>) = Inr st'"
        by (auto split: option.splits)
      from ih [OF this] ihdr show ?thesis by (auto simp add: cw)
    next
      case iend
      with rs have "st' = st\<lparr>ended := True\<rparr>" by simp
      with iend show ?thesis by (simp add: cw)
    next
      case plte
      with rs have "read_chunks buf ?next (st\<lparr>plte := Some ?dat\<rparr>) = Inr st'" by simp
      from ih [OF this] plte show ?thesis by (auto simp add: cw)
    next
      case trns
      with rs have "read_chunks buf ?next (st\<lparr>trns := Some ?dat\<rparr>) = Inr st'" by simp
      from ih [OF this] trns show ?thesis by (auto simp add: cw)
    next
      case idat
      with rs have "read_chunks buf ?next (st\<lparr>idatParts := idatParts st @ [?dat]\<rparr>) = Inr st'"
        by simp
      from ih [OF this] idat show ?thesis by (auto simp add: cw)
    next
      case other
      with rs have "read_chunks buf ?next st = Inr st'" by simp
      from ih [OF this] other show ?thesis by (auto simp add: cw)
    qed
  qed
qed

text \<open>The header that the chunk loop ends with is that of the last IHDR chunk it walked.\<close>

lemma read_chunks_header:
  "read_chunks buf offset st = Inr st' \<Longrightarrow>
     (case header_chunks_from buf offset of
        [] \<Rightarrow> ihdr st' = ihdr st
      | c # cs \<Rightarrow>
          (case last (c # cs) of
             (t, s, e) \<Rightarrow>
               \<exists>w h. readUInt32BE (slice buf s e) 0 = Some w
                   \<and> readUInt32BE (slice buf s e) 4 = Some h
                   \<and> ihdr st' = Some (make_ihdr w h (slice buf s e))))"
proof (induction "length buf - offset" arbitrary: offset st rule: less_induct)
  case less
  show ?case
  proof (cases "offset + 8 \<le> length buf
            \<and> (\<exists>len. readUInt32BE buf offset = Some len \<and> offset + 8 + len + 4 \<le> length buf)")
    case False
    with less.prems show ?thesis
      by (simp add: read_chunks_stop chunk_walk_stop header_chunks_from_def)
  next
    case True
    then obtain len where c: "offset + 8 \<le> length buf" "readUInt32BE buf offset = Some len"
      "offset + 8 + len + 4 \<le> length buf" by blast
    let ?type = "toString_ascii buf (offset + 4) (offset + 8)"
    let ?dat = "slice buf (offset + 8) (offset + 8 + len)"
    let ?next = "offset + 8 + len + 4"
    note cw = chunk_walk_step [OF c]
    have dec: "length buf - ?next < length buf - offset" using c by simp
    note ih = less.hyps [OF dec]
    note rs = less.prems [unfolded read_chunks_step [OF c] Let_def]
    consider (ihdr) "?type = ''IHDR''" | (iend) "?type = ''IEND''"
      | (plte) "?type = ''PLTE''" | (trns) "?type = ''tRNS''" | (idat) "?type = ''IDAT''"
      | (other) "?type \<noteq> ''IHDR''" "?type \<noteq> ''IEND''" "?type \<noteq> ''PLTE''"
          "?type \<noteq> ''tRNS''" "?type \<noteq> ''IDAT''"
      by blast
    then show ?thesis
    proof cases
      case ihdr
      with rs obtain w h where wh: "readUInt32BE ?dat 0 = Some w" "readUInt32BE ?dat 4 = Some h"
        and r: "read_chunks buf ?next (st\<lparr>ihdr := Some (make_ihdr w h ?dat)\<rparr>) = Inr st'"
        by (auto split: option.splits)
      from ih [OF r] ihdr wh show ?thesis
        by (auto simp add: cw header_chunks_from_def split: list.splits)
    next
      case iend
      with rs have "st' = st\<lparr>ended := True\<rparr>" by simp
      with iend show ?thesis by (simp add: cw header_chunks_from_def)
    next
      case plte
      with rs have "read_chunks buf ?next (st\<lparr>plte := Some ?dat\<rparr>) = Inr st'" by simp
      from ih [OF this] plte show ?thesis
        by (auto simp add: cw header_chunks_from_def split: list.splits)
    next
      case trns
      with rs have "read_chunks buf ?next (st\<lparr>trns := Some ?dat\<rparr>) = Inr st'" by simp
      from ih [OF this] trns show ?thesis
        by (auto simp add: cw header_chunks_from_def split: list.splits)
    next
      case idat
      with rs have "read_chunks buf ?next (st\<lparr>idatParts := idatParts st @ [?dat]\<rparr>) = Inr st'"
        by simp
      from ih [OF this] idat show ?thesis
        by (auto simp add: cw header_chunks_from_def split: list.splits)
    next
      case other
      with rs have "read_chunks buf ?next st = Inr st'" by simp
      from ih [OF this] other show ?thesis
        by (auto simp add: cw header_chunks_from_def split: list.splits)
    qed
  qed
qed

lemma parsePNG_declared:
  assumes "parsePNG rt buf = Some img"
  shows "declared_size buf = Some (width img, height img)"
proof -
  from assms obtain st hdr where r: "read_chunks buf 8 reader_init = Inr st"
    and h: "ihdr st = Some hdr" and w: "width img = width hdr" "height img = height hdr"
    by (auto simp add: parsePNG_def parsePNG_body_def Let_def
          split: if_splits sum.splits option.splits)
  from read_chunks_header [OF r] h w show ?thesis
    by (auto simp add: declared_size_def header_chunks_def reader_init_def make_ihdr_def
          split: list.splits prod.splits)
qed

lemma parsePNG_header_fields:
  assumes "parsePNG rt buf = Some img"
  shows "case last (header_chunks buf) of
           (t, s, e) \<Rightarrow>
             buf_index (slice buf s e) 8 = Some 8
             \<and> buf_index (slice buf s e) 9 \<in> {Some 0, Some 2, Some 3, Some 6}
             \<and> buf_index (slice buf s e) 10 = Some 0
             \<and> buf_index (slice buf s e) 11 = Some 0
             \<and> buf_index (slice buf s e) 12 = Some 0"
proof -
  from assms obtain st hdr ch where r: "read_chunks buf 8 reader_init = Inr st"
    and h: "ihdr st = Some hdr"
    and f: "bitDepth hdr = Some 8" "compression hdr = Some 0" "filter_method hdr = Some 0"
      "interlace hdr = Some 0" "channels_of (colorType hdr) = Some ch"
    by (auto simp add: parsePNG_def parsePNG_body_def Let_def
          split: if_splits sum.splits option.splits)
  from f(5) have ct: "colorType hdr \<in> {Some 0, Some 2, Some 3, Some 6}"
    by (auto simp add: channels_of_def split: if_splits)
  from read_chunks_header [OF r] h f(1-4) ct show ?thesis
    by (auto simp add: header_chunks_def reader_init_def make_ihdr_def
          split: list.splits prod.splits)
qed

lemma chunk_walk_type:
  "(t, s, e) \<in> set (chunk_walk buf offset) \<Longrightarrow> t = toString_ascii buf (s - 4) s"
proof (induction "length buf - offset" arbitrary: offset rule: less_induct)
  case less
  show ?case
  proof (cases "offset + 8 \<le> length buf
            \<and> (\<exists>len. readUInt32BE buf offset = Some len \<and> offset + 8 + len + 4 \<le> length buf)")
    case False
    with less.prems show ?thesis by (simp add: chunk_walk_stop)
  next
    case True
    then obtain len where c: "offset + 8 \<le> length buf" "readUInt32BE buf offset = Some len"
      "offset + 8 + len + 4 \<le> length buf" by blast
    have dec: "length buf - (offset + 8 + len + 4) < length buf - offset" using c by simp
    from less.prems [unfolded chunk_walk_step [OF c]]
    consider "t = toString_ascii buf (offset + 4) (offset + 8)" "s = offset + 8"
      | "(t, s, e) \<in> set (chunk_walk buf (offset + 8 + len + 4))"
      by (auto split: if_splits)
    then show ?thesis
    proof cases
      case 1
      have "offset + 8 - 4 = offset + 4" by simp
      with 1 show ?thesis by (simp only:)
    next
      case 2
      then show ?thesis by (rule less.hyps [OF dec])
    qed
  qed
qed

lemma ascii_type_bytes:
  "map (\<lambda>b :: byte. char_of (unat (b AND 0x7f))) xs = ''IHDR''
     \<longleftrightarrow> map (\<lambda>b. b AND 0x7f) xs = [73, 72, 68, 82]"
proof -
  have t: "take_bit 8 (unat w) = unat w" for w :: byte
    using unsigned_less [of w, where ?'a = nat] by (simp add: take_bit_nat_eq_self_iff)
  have ch: "char_of (unat w) = c \<longleftrightarrow> unat w = of_char c" for w :: byte and c
    by (auto simp add: char_of_eq_iff t)
  have u: "unat w = 73 \<longleftrightarrow> w = 73" "unat w = 72 \<longleftrightarrow> w = 72"
    "unat w = 68 \<longleftrightarrow> w = 68" "unat w = 82 \<longleftrightarrow> w = 82" for w :: byte
    by (simp_all add: word_unat_eq_iff)
  show ?thesis
    by (simp add: map_eq_Cons_conv ch u)
qed

lemma header_chunk_bytes:
  assumes "(t, s, e) \<in> set (chunk_walk buf offset)"
  shows "t = ''IHDR'' \<longleftrightarrow> map (\<lambda>b. b AND 0x7f) (slice buf (s - 4) s) = [73, 72, 68, 82]"
  unfolding chunk_walk_type [OF assms] toString_ascii_def by (rule ascii_type_bytes)

text \<open>C8, as the decoder has it. A stream that decodes starts with the signature, its framed
  chunks end with IEND and at least one of them is an IHDR chunk, and the image has the width
  and height that the last IHDR chunk declares: each IHDR chunk overwrites the header read
  before it, wherever it stands. A framed chunk counts as IHDR when its four type bytes,
  the highest bit of each cleared, are 73, 72, 68, 82.\<close>

theorem decoder_needs_ihdr_and_iend:
  assumes "parsePNG rt buf = Some img"
  shows "slice buf 0 8 = PNG_SIG
       \<and> chunk_types buf \<noteq> [] \<and> last (chunk_types buf) = ''IEND''
       \<and> header_chunks buf \<noteq> []
       \<and> declared_size buf = Some (width img, height img)
       \<and> (case last (header_chunks buf) of
            (t, s, e) \<Rightarrow>
              buf_index (slice buf s e) 8 = Some 8
              \<and> buf_index (slice buf s e) 9 \<in> {Some 0, Some 2, Some 3, Some 6}
              \<and> buf_index (slice buf s e) 10 = Some 0
              \<and> buf_index (slice buf s e) 11 = Some 0
              \<and> buf_index (slice buf s e) 12 = Some 0)
       \<and> (\<forall>(t, s, e) \<in> set (chunk_walk buf 8).
            (t, s, e) \<in> set (header_chunks buf)
              \<longleftrightarrow> map (\<lambda>b. b AND 0x7f) (slice buf (s - 4) s) = [73, 72, 68, 82])"
proof -
  from assms obtain st hdr where sg: "slice buf 0 8 = PNG_SIG"
    and r: "read_chunks buf 8 reader_init = Inr st" and h: "ihdr st = Some hdr" and e: "ended st"
    by (auto simp add: parsePNG_def parsePNG_body_def Let_def
          split: if_splits sum.splits option.splits)
  from read_chunks_reaches [OF r] h e
  have "chunk_walk buf 8 \<noteq> []" and "fst (last (chunk_walk buf 8)) = ''IEND''"
    by (simp_all add: reader_init_def)
  then have a: "chunk_types buf \<noteq> []" "last (chunk_types buf) = ''IEND''"
    by (simp_all add: chunk_types_def last_map)
  have d: "declared_size buf = Some (width img, height img)"
    using assms by (rule parsePNG_declared)
  then have b: "header_chunks buf \<noteq> []"
    by (auto simp add: declared_size_def)
  have c: "\<forall>(t, s, e) \<in> set (chunk_walk buf 8).
            (t, s, e) \<in> set (header_chunks buf)
              \<longleftrightarrow> map (\<lambda>b. b AND 0x7f) (slice buf (s - 4) s) = [73, 72, 68, 82]"
    using header_chunk_bytes [of _ _ _ buf 8]
    by (auto simp add: header_chunks_def header_chunks_from_def)
  note f = parsePNG_header_fields [OF assms]
  from sg a b d f c show ?thesis by (intro conjI)
qed

lemmas header_eval =
  declared_size_def header_chunks_def header_chunks_from_def chunk_walk.simps readUInt32BE_def
  toString_ascii_def char_of_eq_iff slice_def Let_def

theorem decoder_needs_ihdr_and_iend_witness:
  "parsePNG node_stored png_1x1_high_bit
     = Some \<lparr>width = 1, height = 1, data = [255, 255, 255, 255]\<rparr>
   \<and> slice png_1x1_high_bit 0 8 = PNG_SIG
   \<and> chunk_types png_1x1_high_bit = [''IHDR'', ''IDAT'', ''IEND'']
   \<and> header_chunks png_1x1_high_bit = [(''IHDR'', 16, 29)]
   \<and> slice png_1x1_high_bit 12 16 = [201, 72, 196, 82]
   \<and> declared_size png_1x1_high_bit = Some (1, 1)"
proof -
  have p: "parsePNG node_stored png_1x1_high_bit
     = Some \<lparr>width = 1, height = 1, data = [255, 255, 255, 255]\<rparr>"
    by (simp add: decode_eval png_1x1_high_bit_def)
  have "chunk_types png_1x1_high_bit = [''IHDR'', ''IDAT'', ''IEND'']"
    by (simp add: walk_eval png_1x1_high_bit_def)
  moreover have "header_chunks png_1x1_high_bit = [(''IHDR'', 16, 29)]"
    by (simp add: header_eval png_1x1_high_bit_def)
  moreover have "slice png_1x1_high_bit 12 16 = [201, 72, 196, 82]"
    by (simp add: slice_def png_1x1_high_bit_def)
  ultimately show ?thesis
    using decoder_needs_ihdr_and_iend [OF p] p by simp
qed

text \<open>C8 as stated asks for a decode failure unless there is exactly one IHDR chunk and it
  comes first. A stream whose first chunk is IDAT, and a stream with two IHDR chunks, both
  with a valid signature, decode to the white pixel.\<close>

theorem ihdr_first_and_only_counterexample:
  "slice png_idat_first 0 8 = PNG_SIG
   \<and> chunk_types png_idat_first = [''IDAT'', ''IHDR'', ''IEND'']
   \<and> parsePNG node_stored png_idat_first
       = Some \<lparr>width = 1, height = 1, data = [255, 255, 255, 255]\<rparr>
   \<and> slice png_ihdr_twice 0 8 = PNG_SIG
   \<and> chunk_types png_ihdr_twice = [''IHDR'', ''IHDR'', ''IDAT'', ''IEND'']
   \<and> parsePNG node_stored png_ihdr_twice
       = Some \<lparr>width = 1, height = 1, data = [255, 255, 255, 255]\<rparr>"
proof (intro conjI)
  show "slice png_idat_first 0 8 = PNG_SIG" "slice png_ihdr_twice 0 8 = PNG_SIG"
    by (simp_all add: png_idat_first_def png_ihdr_twice_def slice_def PNG_SIG_def)
  show "chunk_types png_idat_first = [''IDAT'', ''IHDR'', ''IEND'']"
    by (simp add: walk_eval png_idat_first_def)
  show "chunk_types png_ihdr_twice = [''IHDR'', ''IHDR'', ''IDAT'', ''IEND'']"
    by (simp add: walk_eval png_ihdr_twice_def)
  show "parsePNG node_stored png_idat_first
       = Some \<lparr>width = 1, height = 1, data = [255, 255, 255, 255]\<rparr>"
    by (simp add: decode_eval png_idat_first_def)
  show "parsePNG node_stored png_ihdr_twice
       = Some \<lparr>width = 1, height = 1, data = [255, 255, 255, 255]\<rparr>"
    by (simp add: decode_eval png_ihdr_twice_def)
qed

section \<open>Images with no pixels\<close>




end
